theory Spec2Isabelle
  imports
    Main
    "HOL-Library.Word"
    "HOL-Library.Multiset"
    "HOL-Library.Product_Lexorder"
begin

section \<open>Errors\<close>

text \<open>
  The C++ sources abort on a failed assertion and have undefined behaviour on an
  out-of-range array access or on a dangling list iterator.  Each of these is a value
  of the error type below, and every fallible operation returns \<open>error + 'a\<close>.
\<close>

datatype error = AssertionFailed | OutOfBounds | DanglingIterator

section \<open>Property cache (libtsuba/include/tsuba/Cache.h)\<close>

datatype NodeEdge = kNode | kEdge

text \<open>\<open>struct KeyBase\<close>: the fields \<open>node_edge_\<close> and \<open>name_\<close>.\<close>

record KeyBase =
  node_edge :: NodeEdge
  name :: string

datatype ReplacementPolicy = kLRU | kSize

text \<open>
  \<open>class Cache<Value>\<close>.  The concurrent map \<open>key_to_value_\<close> is a finite map from keys to
  pairs of a value and a list iterator.  A \<open>std::list\<close> iterator is the identity of a list
  node, so the nodes of \<open>lru_list_\<close> carry a number (allocated from \<open>next_node\<close>) and an
  iterator is that number.  \<open>total_bytes_\<close> is a \<open>size_t\<close>, a 64-bit word that wraps.
  The callback \<open>evict_cb_\<close> is represented by the list of keys it has been called with
  (most recent first); \<open>has_evict_cb\<close> says whether it is set.
\<close>

record 'v Cache =
  key_to_value :: "KeyBase \<rightharpoonup> ('v \<times> nat)"
  lru_list :: "(nat \<times> KeyBase) list"
  next_node :: nat
  total_bytes :: "64 word"
  policy :: ReplacementPolicy
  lru_capacity :: nat
  byte_capacity :: "64 word"
  has_evict_cb :: bool
  evict_cb_calls :: "KeyBase list"
  value_to_bytes :: "('v \<Rightarrow> 64 word) option"

text \<open>The constructor, with its two assertions.\<close>

definition Cache_new ::
  "ReplacementPolicy \<Rightarrow> nat \<Rightarrow> 64 word \<Rightarrow> bool \<Rightarrow> ('v \<Rightarrow> 64 word) option \<Rightarrow> error + 'v Cache" where
  "Cache_new pol lru_cap byte_cap cb vtb =
     (if \<not> (pol \<noteq> kLRU \<or> lru_cap > 0) then Inl AssertionFailed
      else if \<not> (pol \<noteq> kSize \<or> byte_cap > 0) then Inl AssertionFailed
      else Inr \<lparr>key_to_value = Map.empty, lru_list = [], next_node = 0, total_bytes = 0,
                policy = pol, lru_capacity = lru_cap, byte_capacity = byte_cap,
                has_evict_cb = cb, evict_cb_calls = [], value_to_bytes = vtb\<rparr>)"

definition size_c :: "'v Cache \<Rightarrow> nat" where
  "size_c c = card (dom (key_to_value c))"

definition bytes :: "'v Cache \<Rightarrow> 64 word" where
  "bytes c = total_bytes c"

definition Contains :: "'v Cache \<Rightarrow> KeyBase \<Rightarrow> bool" where
  "Contains c key = (key_to_value c key \<noteq> None)"

text \<open>
  The body of both eviction loops: take the tail of the list, subtract the bytes of the
  value stored under its key (if the key is in the map and a byte supplier is set), erase
  the key from the map and the node from the list, then call the callback.  The caller
  has checked that the list is not empty.
\<close>

definition evict_tail :: "'v Cache \<Rightarrow> 'v Cache" where
  "evict_tail c =
     (let evicted_key = snd (last (lru_list c));
          tb = (case value_to_bytes c of
                  None \<Rightarrow> total_bytes c
                | Some f \<Rightarrow> (case key_to_value c evicted_key of
                               None \<Rightarrow> total_bytes c
                             | Some (v, it) \<Rightarrow> total_bytes c - f v))
      in c\<lparr>total_bytes := tb,
            key_to_value := (key_to_value c)(evicted_key := None),
            lru_list := butlast (lru_list c),
            evict_cb_calls := (if has_evict_cb c then evicted_key # evict_cb_calls c
                               else evict_cb_calls c)\<rparr>)"

text \<open>
  \<open>case kLRU\<close> of \<open>evict_if_necessary\<close>.  \<open>--lru_list_.end()\<close> on an empty list has no
  tail to return; the assertion after it is the failure of the model.
\<close>

function evict_lru :: "'v Cache \<Rightarrow> error + 'v Cache" where
  "evict_lru c =
     (if size_c c > lru_capacity c then
        (if lru_list c = [] then Inl AssertionFailed else evict_lru (evict_tail c))
      else Inr c)"
  by pat_completeness auto
termination
  by (relation "measure (\<lambda>c. length (lru_list c))") (auto simp: evict_tail_def Let_def)

text \<open>\<open>case kSize\<close> of \<open>evict_if_necessary\<close>, after its debug assertion.\<close>

function evict_size :: "'v Cache \<Rightarrow> error + 'v Cache" where
  "evict_size c =
     (if bytes c > byte_capacity c \<and> size_c c > 1 then
        (if lru_list c = [] then Inl AssertionFailed else evict_size (evict_tail c))
      else Inr c)"
  by pat_completeness auto
termination
  by (relation "measure (\<lambda>c. length (lru_list c))") (auto simp: evict_tail_def Let_def)

declare evict_lru.simps [simp del] evict_size.simps [simp del]

definition evict_if_necessary :: "'v Cache \<Rightarrow> error + 'v Cache" where
  "evict_if_necessary c =
     (case policy c of
        kLRU \<Rightarrow> evict_lru c
      | kSize \<Rightarrow> (if value_to_bytes c = None then Inl AssertionFailed else evict_size c))"

definition Insert :: "'v Cache \<Rightarrow> KeyBase \<Rightarrow> 'v \<Rightarrow> error + 'v Cache" where
  "Insert c key val =
     (let node = next_node c;
          c1 = c\<lparr>lru_list := (node, key) # lru_list c, next_node := Suc node\<rparr>;
          c2 = c1\<lparr>key_to_value := (key_to_value c1)(key \<mapsto> (val, node))\<rparr>;
          c3 = (case value_to_bytes c2 of
                  None \<Rightarrow> c2
                | Some f \<Rightarrow> c2\<lparr>total_bytes := total_bytes c2 + f val\<rparr>)
      in evict_if_necessary c3)"

text \<open>
  \<open>Get\<close>: \<open>modify_if\<close> runs the lambda only when the key is present.  The lambda reads
  \<open>head = lru_list_.begin()\<close> before the splice and stores \<open>head\<close> in the map afterwards,
  as the source does.  An iterator that names no node of the list is dangling.
\<close>

definition Get :: "'v Cache \<Rightarrow> KeyBase \<Rightarrow> error + ('v option \<times> 'v Cache)" where
  "Get c key =
     (case key_to_value c key of
        None \<Rightarrow> Inr (None, c)
      | Some (v, it) \<Rightarrow>
          (case find (\<lambda>n. fst n = it) (lru_list c) of
             None \<Rightarrow> Inl DanglingIterator
           | Some nd \<Rightarrow>
               (let head = fst (hd (lru_list c))
                in if it \<noteq> head
                   then Inr (Some v,
                          c\<lparr>lru_list := nd # filter (\<lambda>n. fst n \<noteq> it) (lru_list c),
                            key_to_value := (key_to_value c)(key \<mapsto> (v, head))\<rparr>)
                   else Inr (Some v, c))))"

text \<open>A sequence of \<open>Insert\<close> calls, returning the cache after each call.\<close>

fun Insert_all :: "'v Cache \<Rightarrow> (KeyBase \<times> 'v) list \<Rightarrow> error + 'v Cache list" where
  "Insert_all c [] = Inr []"
| "Insert_all c ((k, v) # kvs) =
     (case Insert c k v of
        Inl e \<Rightarrow> Inl e
      | Inr c' \<Rightarrow> (case Insert_all c' kvs of Inl e \<Rightarrow> Inl e | Inr cs \<Rightarrow> Inr (c' # cs)))"

text \<open>
  The capacity bound of the cache: at most \<open>lru_capacity_\<close> entries under \<open>kLRU\<close>; at most
  \<open>byte_capacity_\<close> bytes, or a single entry, under \<open>kSize\<close>.
\<close>

definition capacity_ok :: "'v Cache \<Rightarrow> bool" where
  "capacity_ok c =
     (case policy c of
        kLRU \<Rightarrow> size_c c \<le> lru_capacity c
      | kSize \<Rightarrow> bytes c \<le> byte_capacity c \<or> size_c c = 1)"

text \<open>Every key of the map is the key of some node of the list.\<close>

definition keys_listed :: "'v Cache \<Rightarrow> bool" where
  "keys_listed c = (dom (key_to_value c) \<subseteq> snd ` set (lru_list c))"

text \<open>
  The nodes of the list have distinct identities, all allocated already.  Together with
  \<open>keys_listed\<close> this holds of the cache the constructor returns and is kept by \<open>Insert\<close>
  and \<open>Get\<close>.
\<close>

definition nodes_ok :: "'v Cache \<Rightarrow> bool" where
  "nodes_ok c = (distinct (map fst (lru_list c)) \<and> (\<forall>n \<in> set (lru_list c). fst n < next_node c))"

section \<open>Graph topologies (libgraph/src/GraphTopology.cpp)\<close>

text \<open>
  \<open>Node\<close> is a \<open>uint32_t\<close>, \<open>Edge\<close> and \<open>PropertyIndex\<close> are \<open>uint64_t\<close>.  They are only
  used as array indices and counters bounded by the array sizes, so they are natural
  numbers here.  \<open>EntityTypeID\<close> is a 16-bit unsigned integer.
\<close>

type_synonym Node = nat
type_synonym Edge = nat
type_synonym PropertyIndex = nat
type_synonym EntityTypeID = "16 word"

text \<open>\<open>class GraphTopology\<close>: its four arrays.\<close>

record GraphTopology =
  adj_indices :: "Edge list"
  dests :: "Node list"
  edge_prop_indices :: "PropertyIndex list"
  node_prop_indices :: "PropertyIndex list"

text \<open>
  The enumerators of \<open>RDGTopology::TransposeKind\<close> and \<open>RDGTopology::EdgeSortKind\<close> that
  GraphTopology.cpp uses.
\<close>

datatype TransposeKind = kNo | kYes

datatype EdgeSortKind = kAny | kSortedByDestID | kSortedByEdgeType

text \<open>\<open>class EdgeShuffleTopology : public GraphTopology\<close>.\<close>

record EdgeShuffleTopology = GraphTopology +
  tpose_state :: TransposeKind
  edge_sort_state :: EdgeSortKind

text \<open>A checked array read and a checked array write.\<close>

definition rd :: "'a list \<Rightarrow> nat \<Rightarrow> error + 'a" where
  "rd xs i = (if i < length xs then Inr (xs ! i) else Inl OutOfBounds)"

definition wr :: "'a list \<Rightarrow> nat \<Rightarrow> 'a \<Rightarrow> error + 'a list" where
  "wr xs i v = (if i < length xs then Inr (xs[i := v]) else Inl OutOfBounds)"

subsection \<open>Accessors declared in GraphTopology.h\<close>

text \<open>
  Modelled from the spec: the header GraphTopology.h, which defines the accessors below,
  is not among the sources.  The spec gives \<open>num_nodes\<close>, \<open>num_edges\<close>, \<open>out_edges(n)\<close> as
  the edge IDs in \<open>[prev(n), adj_indices[n])\<close> where \<open>prev(0) = 0\<close> and
  \<open>prev(n) = adj_indices[n-1]\<close>, \<open>out_degree\<close>, \<open>out_edge_dst(e)\<close>, and the implied
  identity for an absent property index array.
\<close>

definition NumNodes :: "'a GraphTopology_scheme \<Rightarrow> nat" where
  "NumNodes t = length (adj_indices t)"

definition NumEdges :: "'a GraphTopology_scheme \<Rightarrow> nat" where
  "NumEdges t = length (dests t)"

definition empty_topo :: "'a GraphTopology_scheme \<Rightarrow> bool" where
  "empty_topo t = (NumNodes t = 0)"

definition Nodes :: "'a GraphTopology_scheme \<Rightarrow> Node list" where
  "Nodes t = [0..<NumNodes t]"

text \<open>
  The half-open range of out-edges of a node, as its pair of bounds.  A node beyond the
  array and a range whose end lies before its begin are errors.
\<close>

definition OutEdges :: "'a GraphTopology_scheme \<Rightarrow> Node \<Rightarrow> error + (Edge \<times> Edge)" where
  "OutEdges t n =
     (if n < NumNodes t then
        (let e_beg = (if n = 0 then 0 else adj_indices t ! (n - 1));
             e_end = adj_indices t ! n
         in if e_beg \<le> e_end then Inr (e_beg, e_end) else Inl OutOfBounds)
      else Inl OutOfBounds)"

definition OutEdgeDst :: "'a GraphTopology_scheme \<Rightarrow> Edge \<Rightarrow> error + Node" where
  "OutEdgeDst t e = rd (dests t) e"

text \<open>Modelled from the spec: \<open>has_edges_sorted_by\<close> compares the view's edge-sort tag.\<close>

definition has_edges_sorted_by :: "'a EdgeShuffleTopology_scheme \<Rightarrow> EdgeSortKind \<Rightarrow> bool" where
  "has_edges_sorted_by v kind = (kind = kAny \<or> edge_sort_state v = kind)"

subsection \<open>GetEdgePropertyIndexFromOutEdge, GetNodePropertyIndex\<close>

definition GetEdgePropertyIndexFromOutEdge ::
  "'a GraphTopology_scheme \<Rightarrow> Edge \<Rightarrow> error + PropertyIndex" where
  "GetEdgePropertyIndexFromOutEdge t eid =
     (if \<not> eid < NumEdges t then Inl AssertionFailed
      else if edge_prop_indices t = [] then Inr eid else rd (edge_prop_indices t) eid)"

definition GetNodePropertyIndex ::
  "'a GraphTopology_scheme \<Rightarrow> Node \<Rightarrow> error + PropertyIndex" where
  "GetNodePropertyIndex t nid =
     (if \<not> (nid < NumNodes t \<or> NumNodes t = 0) then Inl AssertionFailed
      else if node_prop_indices t = [] then Inr nid else rd (node_prop_indices t) nid)"

subsection \<open>The copying constructor and Copy\<close>

text \<open>
  A pointer argument is \<open>None\<close> for \<open>nullptr\<close> and \<open>Some xs\<close> for the address of the first
  element of the array \<open>xs\<close>.  \<open>data()\<close> of an array that was never allocated is \<open>nullptr\<close>.
  Copying \<open>n\<close> elements out of an array reads its first \<open>n\<close> cells.
\<close>

definition data :: "'a list \<Rightarrow> 'a list option" where
  "data xs = (if xs = [] then None else Some xs)"

definition copy_n :: "'a list option \<Rightarrow> nat \<Rightarrow> error + 'a list" where
  "copy_n p n =
     (case p of
        None \<Rightarrow> (if n = 0 then Inr [] else Inl OutOfBounds)
      | Some xs \<Rightarrow> (if n \<le> length xs then Inr (take n xs) else Inl OutOfBounds))"

text \<open>
  The constructor \<open>GraphTopology(adj_indices, num_nodes, dests, num_edges,
  edge_prop_indices, node_prop_indices)\<close>.
\<close>

definition GraphTopology_ctor ::
  "Edge list option \<Rightarrow> nat \<Rightarrow> Node list option \<Rightarrow> nat \<Rightarrow>
   PropertyIndex list option \<Rightarrow> PropertyIndex list option \<Rightarrow> error + GraphTopology" where
  "GraphTopology_ctor adj_p num_nodes dests_p num_edges edge_prop_p node_prop_p =
     (case copy_n adj_p num_nodes of
        Inl e \<Rightarrow> Inl e
      | Inr adj \<Rightarrow>
     (case copy_n dests_p num_edges of
        Inl e \<Rightarrow> Inl e
      | Inr ds \<Rightarrow>
     (case (if edge_prop_p \<noteq> None then copy_n edge_prop_p num_edges else Inr []) of
        Inl e \<Rightarrow> Inl e
      | Inr ep \<Rightarrow>
     (case (if node_prop_p \<noteq> None then copy_n node_prop_p num_nodes else Inr []) of
        Inl e \<Rightarrow> Inl e
      | Inr np \<Rightarrow>
          Inr \<lparr>adj_indices = adj, dests = ds, edge_prop_indices = ep,
               node_prop_indices = np\<rparr>))))"

definition Copy :: "'a GraphTopology_scheme \<Rightarrow> error + GraphTopology" where
  "Copy that =
     GraphTopology_ctor
       (data (adj_indices that)) (length (adj_indices that))
       (data (dests that)) (length (dests that))
       (data (edge_prop_indices that)) (data (edge_prop_indices that))"

subsection \<open>FindEdge and FindAllEdges\<close>

text \<open>
  \<open>std::find_if\<close> over a range of edge IDs: the first edge satisfying the predicate, or
  the end of the range.
\<close>

fun find_if :: "(Edge \<Rightarrow> error + bool) \<Rightarrow> Edge list \<Rightarrow> Edge \<Rightarrow> error + Edge" where
  "find_if p [] e_end = Inr e_end"
| "find_if p (e # es) e_end =
     (case p e of
        Inl err \<Rightarrow> Inl err
      | Inr b \<Rightarrow> (if b then Inr e else find_if p es e_end))"

text \<open>
  \<open>std::lower_bound\<close> and \<open>std::upper_bound\<close> over the \<open>len\<close> edge IDs starting at
  \<open>first\<close>, as the standard library implements them: halve the remaining length and
  compare at the middle.  For \<open>lower_bound\<close> the comparison is \<open>comp(*middle, val)\<close>, for
  \<open>upper_bound\<close> it is \<open>comp(val, *middle)\<close>.
\<close>

function lower_bound :: "(Edge \<Rightarrow> error + bool) \<Rightarrow> Edge \<Rightarrow> nat \<Rightarrow> error + Edge" where
  "lower_bound cmp first len =
     (if len > 0 then
        (let half = len div 2; middle = first + half
         in case cmp middle of
              Inl err \<Rightarrow> Inl err
            | Inr b \<Rightarrow> (if b then lower_bound cmp (middle + 1) (len - half - 1)
                       else lower_bound cmp first half))
      else Inr first)"
  by pat_completeness auto
termination
  by (relation "measure (\<lambda>(cmp, first, len). len)") auto

function upper_bound :: "(Edge \<Rightarrow> error + bool) \<Rightarrow> Edge \<Rightarrow> nat \<Rightarrow> error + Edge" where
  "upper_bound cmp first len =
     (if len > 0 then
        (let half = len div 2; middle = first + half
         in case cmp middle of
              Inl err \<Rightarrow> Inl err
            | Inr b \<Rightarrow> (if b then upper_bound cmp first half
                       else upper_bound cmp (middle + 1) (len - half - 1)))
      else Inr first)"
  by pat_completeness auto
termination
  by (relation "measure (\<lambda>(cmp, first, len). len)") auto

declare lower_bound.simps [simp del] upper_bound.simps [simp del]

text \<open>
  Modelled from the spec: \<open>internal::EdgeDestComparator\<close> is declared in the missing
  header; it orders an edge and a node ID by the edge's destination (binary search over
  a range sorted by destination).
\<close>

definition dest_less_node :: "'a GraphTopology_scheme \<Rightarrow> Node \<Rightarrow> Edge \<Rightarrow> error + bool" where
  "dest_less_node t n e = (case OutEdgeDst t e of Inl err \<Rightarrow> Inl err | Inr d \<Rightarrow> Inr (d < n))"

definition node_less_dest :: "'a GraphTopology_scheme \<Rightarrow> Node \<Rightarrow> Edge \<Rightarrow> error + bool" where
  "node_less_dest t n e = (case OutEdgeDst t e of Inl err \<Rightarrow> Inl err | Inr d \<Rightarrow> Inr (n < d))"

definition dest_equals :: "'a GraphTopology_scheme \<Rightarrow> Node \<Rightarrow> Edge \<Rightarrow> error + bool" where
  "dest_equals t n e = (case OutEdgeDst t e of Inl err \<Rightarrow> Inl err | Inr d \<Rightarrow> Inr (d = n))"

definition kBinarySearchThreshold :: nat where
  "kBinarySearchThreshold = 64"

text \<open>The condition under which \<open>FindEdge\<close> logs its warning about poor performance.\<close>

definition FindEdge_warns :: "'a EdgeShuffleTopology_scheme \<Rightarrow> Node \<Rightarrow> bool" where
  "FindEdge_warns v src =
     (case OutEdges v src of
        Inl err \<Rightarrow> False
      | Inr (e_beg, e_end) \<Rightarrow>
          e_end - e_beg > kBinarySearchThreshold \<and> \<not> has_edges_sorted_by v kSortedByDestID)"

text \<open>\<open>FindEdge\<close> returns an edge iterator, which is an edge ID.\<close>

definition FindEdge :: "'a EdgeShuffleTopology_scheme \<Rightarrow> Node \<Rightarrow> Node \<Rightarrow> error + Edge" where
  "FindEdge v src dst =
     (case OutEdges v src of
        Inl err \<Rightarrow> Inl err
      | Inr (e_beg, e_end) \<Rightarrow>
          (if e_end - e_beg \<le> kBinarySearchThreshold then
             find_if (dest_equals v dst) [e_beg..<e_end] e_end
           else
             (case lower_bound (dest_less_node v dst) e_beg (e_end - e_beg) of
                Inl err \<Rightarrow> Inl err
              | Inr iter \<Rightarrow>
                  (case OutEdgeDst v iter of
                     Inl err \<Rightarrow> Inl err
                   | Inr d \<Rightarrow> Inr (if d = dst then iter else e_end)))))"

text \<open>
  \<open>FindAllEdges\<close> returns a range of edges, as its pair of bounds.  The loop of debug
  assertions over the returned range is \<open>find_if\<close> looking for an edge with another
  destination.
\<close>

definition FindAllEdges ::
  "'a EdgeShuffleTopology_scheme \<Rightarrow> Node \<Rightarrow> Node \<Rightarrow> error + (Edge \<times> Edge)" where
  "FindAllEdges v src dst =
     (case OutEdges v src of
        Inl err \<Rightarrow> Inl err
      | Inr (e_beg, e_end) \<Rightarrow>
          (if e_beg = e_end then Inr (e_beg, e_end)
           else if \<not> (\<not> has_edges_sorted_by v kSortedByDestID) then Inl AssertionFailed
           else
             (case lower_bound (dest_less_node v dst) e_beg (e_end - e_beg) of
                Inl err \<Rightarrow> Inl err
              | Inr first_it \<Rightarrow>
             (case upper_bound (node_less_dest v dst) e_beg (e_end - e_beg) of
                Inl err \<Rightarrow> Inl err
              | Inr last_it \<Rightarrow>
                 (if first_it = e_end then Inr (e_end, e_end)
                  else
                    (case OutEdgeDst v first_it of
                       Inl err \<Rightarrow> Inl err
                     | Inr d \<Rightarrow>
                         (if d \<noteq> dst then Inr (e_end, e_end)
                          else
                            (case find_if
                                    (\<lambda>e. case dest_equals v dst e of
                                           Inl err \<Rightarrow> Inl err | Inr b \<Rightarrow> Inr (\<not> b))
                                    [first_it..<last_it] last_it of
                               Inl err \<Rightarrow> Inl err
                             | Inr bad \<Rightarrow>
                                 (if bad \<noteq> last_it then Inl AssertionFailed
                                  else Inr (first_it, last_it))))))))))"

text \<open>
  What the specification asks of \<open>find_edge\<close> and \<open>find_all_edges\<close>: the edges of a node
  with a given destination.
\<close>

definition edges_to :: "'a GraphTopology_scheme \<Rightarrow> Edge \<Rightarrow> Edge \<Rightarrow> Node \<Rightarrow> Edge list" where
  "edges_to t e_beg e_end dst = filter (\<lambda>e. dests t ! e = dst) [e_beg..<e_end]"

text \<open>A valid compressed-sparse-row topology (section 3 of the specification).\<close>

definition valid_csr :: "'a GraphTopology_scheme \<Rightarrow> bool" where
  "valid_csr t =
     (sorted (adj_indices t) \<and>
      (if adj_indices t = [] then dests t = [] else last (adj_indices t) = length (dests t)) \<and>
      list_all (\<lambda>d. d < length (adj_indices t)) (dests t) \<and>
      (edge_prop_indices t = [] \<or> length (edge_prop_indices t) = length (dests t)) \<and>
      (node_prop_indices t = [] \<or> length (node_prop_indices t) = length (adj_indices t)))"

text \<open>The edges of every node are in ascending order of destination.\<close>

definition sorted_by_dest :: "'a GraphTopology_scheme \<Rightarrow> bool" where
  "sorted_by_dest t =
     list_all (\<lambda>n. case OutEdges t n of
                    Inl err \<Rightarrow> False
                  | Inr (e_beg, e_end) \<Rightarrow> sorted (take (e_end - e_beg) (drop e_beg (dests t))))
       (Nodes t)"

section \<open>Edge types and the condensed type map\<close>

text \<open>
  Modelled from the spec: \<open>class PropertyGraph\<close> is not among the sources.  The code
  reads from it the base topology and the entity type of an edge, by the edge's
  property index (the edge-type column of the property table) or by its topology index
  (through the topology's edge property index).
\<close>

record PropertyGraph =
  topology :: GraphTopology
  edge_entity_type_ids :: "EntityTypeID list"

definition GetTypeOfEdgeFromPropertyIndex ::
  "PropertyGraph \<Rightarrow> PropertyIndex \<Rightarrow> error + EntityTypeID" where
  "GetTypeOfEdgeFromPropertyIndex pg i = rd (edge_entity_type_ids pg) i"

definition GetTypeOfEdgeFromTopoIndex :: "PropertyGraph \<Rightarrow> Edge \<Rightarrow> error + EntityTypeID" where
  "GetTypeOfEdgeFromTopoIndex pg e =
     (case GetEdgePropertyIndexFromOutEdge (topology pg) e of
        Inl err \<Rightarrow> Inl err
      | Inr i \<Rightarrow> GetTypeOfEdgeFromPropertyIndex pg i)"

text \<open>
  \<open>std::set\<close> (and \<open>gstl::Set\<close>, the same container with another allocator): an ordered
  set is the ascending list of its elements, which is the order of iteration.
\<close>

definition set_insert :: "'a::linorder \<Rightarrow> 'a list \<Rightarrow> 'a list" where
  "set_insert x s = (if x \<in> set s then s else insort x s)"

text \<open>
  \<open>class CondensedTypeIDMap\<close>: \<open>type_to_index_map_\<close> is an unordered map from
  \<open>EntityTypeID\<close> to \<open>uint32_t\<close>, \<open>index_to_type_map_\<close> a vector of \<open>EntityTypeID\<close>.
\<close>

record CondensedTypeIDMap =
  type_to_index_map :: "EntityTypeID \<rightharpoonup> 32 word"
  index_to_type_map :: "EntityTypeID list"

text \<open>
  Modelled from the spec: the accessors of the condensed map are declared in the
  missing header.  \<open>num_unique_types\<close> is the size \<open>T\<close> of the dense vector, \<open>GetType\<close>
  reads it and \<open>GetIndex\<close> looks a type up in the inverse map.
\<close>

definition num_unique_types :: "CondensedTypeIDMap \<Rightarrow> nat" where
  "num_unique_types m = length (index_to_type_map m)"

definition GetType :: "CondensedTypeIDMap \<Rightarrow> nat \<Rightarrow> error + EntityTypeID" where
  "GetType m index = rd (index_to_type_map m) index"

definition GetIndex :: "CondensedTypeIDMap \<Rightarrow> EntityTypeID \<Rightarrow> error + 32 word" where
  "GetIndex m ty = (case type_to_index_map m ty of None \<Rightarrow> Inl OutOfBounds | Some i \<Rightarrow> Inr i)"

subsection \<open>MakeFromEdgeTypes\<close>

text \<open>
  The first \<open>do_all\<close>: one thread inserts the types of the edges it is given into its
  own set.
\<close>

fun collect_types ::
  "PropertyGraph \<Rightarrow> Edge list \<Rightarrow> EntityTypeID list \<Rightarrow> error + EntityTypeID list" where
  "collect_types pg [] s = Inr s"
| "collect_types pg (e # es) s =
     (case GetTypeOfEdgeFromTopoIndex pg e of
        Inl err \<Rightarrow> Inl err
      | Inr ty \<Rightarrow> collect_types pg es (set_insert ty s))"

text \<open>
  The per-thread storage after the \<open>do_all\<close>.  The argument \<open>chunks\<close> is the schedule:
  for each of the \<open>activeThreads\<close> threads, the edges it ran the loop body for, in its
  order.
\<close>

fun edgeTypes_after :: "PropertyGraph \<Rightarrow> Edge list list \<Rightarrow> error + EntityTypeID list list" where
  "edgeTypes_after pg [] = Inr []"
| "edgeTypes_after pg (ch # chs) =
     (case collect_types pg ch [] of
        Inl err \<Rightarrow> Inl err
      | Inr s \<Rightarrow>
          (case edgeTypes_after pg chs of
             Inl err \<Rightarrow> Inl err
           | Inr ss \<Rightarrow> Inr (s # ss)))"

text \<open>The loop over the threads that inserts every per-thread set into \<open>mergedSet\<close>.\<close>

definition merge_sets :: "EntityTypeID list list \<Rightarrow> EntityTypeID list" where
  "merge_sets edgeTypes = fold (\<lambda>edgeTypesSet merged. fold set_insert edgeTypesSet merged) edgeTypes []"

text \<open>
  The loop over \<open>mergedSet\<close> that fills both maps; \<open>num_edge_types\<close> is a \<open>uint32_t\<close>
  counter, incremented with wrap-around.
\<close>

definition assign_step ::
  "EntityTypeID \<Rightarrow> (EntityTypeID \<rightharpoonup> 32 word) \<times> EntityTypeID list \<times> 32 word \<Rightarrow>
   (EntityTypeID \<rightharpoonup> 32 word) \<times> EntityTypeID list \<times> 32 word" where
  "assign_step edgeType st =
     (case st of (edge_type_to_index, edge_index_to_type, num_edge_types) \<Rightarrow>
        (edge_type_to_index(edgeType \<mapsto> num_edge_types),
         edge_index_to_type @ [edgeType],
         num_edge_types + 1))"

definition MakeFromEdgeTypes :: "PropertyGraph \<Rightarrow> Edge list list \<Rightarrow> error + CondensedTypeIDMap" where
  "MakeFromEdgeTypes pg chunks =
     (case edgeTypes_after pg chunks of
        Inl err \<Rightarrow> Inl err
      | Inr edgeTypes \<Rightarrow>
          (case fold assign_step (merge_sets edgeTypes) (Map.empty, [], 0) of
             (edge_type_to_index, edge_index_to_type, num_edge_types) \<Rightarrow>
               Inr \<lparr>type_to_index_map = edge_type_to_index,
                    index_to_type_map = edge_index_to_type\<rparr>))"

text \<open>
  The contract of \<open>do_all\<close> over the edges \<open>[0, NumEdges)\<close>: the threads together run
  the body exactly once for every edge, so the edges of all threads, put in ascending
  order, are \<open>0, \<dots>, NumEdges - 1\<close>.
\<close>

definition do_all_edges :: "PropertyGraph \<Rightarrow> Edge list list \<Rightarrow> bool" where
  "do_all_edges pg chunks = (sort (concat chunks) = [0..<NumEdges (topology pg)])"

text \<open>Every edge of the property graph has an entity type.\<close>

definition edges_typed :: "PropertyGraph \<Rightarrow> bool" where
  "edges_typed pg =
     list_all (\<lambda>e. case GetTypeOfEdgeFromTopoIndex pg e of Inl err \<Rightarrow> False | Inr ty \<Rightarrow> True)
       [0..<NumEdges (topology pg)]"

text \<open>The edge types present among the edges of the graph.\<close>

definition present_edge_types :: "PropertyGraph \<Rightarrow> EntityTypeID set" where
  "present_edge_types pg =
     set (concat (map (\<lambda>e. case GetTypeOfEdgeFromTopoIndex pg e of
                            Inl err \<Rightarrow> [] | Inr ty \<Rightarrow> [ty])
                   [0..<NumEdges (topology pg)]))"

text \<open>The types of a set of edges.\<close>

definition types_of :: "PropertyGraph \<Rightarrow> Edge set \<Rightarrow> EntityTypeID set" where
  "types_of pg E = {ty. \<exists>e \<in> E. GetTypeOfEdgeFromTopoIndex pg e = Inr ty}"

section \<open>Edge-type-aware topology\<close>

text \<open>
  \<open>katana::do_all\<close> over a range whose loop body updates shared arrays: the body runs
  for the items of the range in the order \<open>order\<close> and stops at the first failure.
\<close>

fun do_all :: "('i \<Rightarrow> 's \<Rightarrow> error + 's) \<Rightarrow> 'i list \<Rightarrow> 's \<Rightarrow> error + 's" where
  "do_all body [] s = Inr s"
| "do_all body (n # ns) s =
     (case body n s of
        Inl err \<Rightarrow> Inl err
      | Inr s' \<Rightarrow> do_all body ns s')"

text \<open>The entity type of an edge of a view: the type of its property index.\<close>

definition edge_type ::
  "PropertyGraph \<Rightarrow> 'a GraphTopology_scheme \<Rightarrow> Edge \<Rightarrow> error + EntityTypeID" where
  "edge_type pg t e =
     (case GetEdgePropertyIndexFromOutEdge t e of
        Inl err \<Rightarrow> Inl err
      | Inr i \<Rightarrow> GetTypeOfEdgeFromPropertyIndex pg i)"

subsection \<open>CreatePerEdgeTypeAdjacencyIndex\<close>

text \<open>
  The inner \<open>while (type != edge_type_index.GetType(index))\<close> loop with its debug
  assertion.  \<open>index\<close> is a \<open>uint32_t\<close> that the assertion keeps below the number of
  types.
\<close>

function skip_types ::
  "CondensedTypeIDMap \<Rightarrow> EntityTypeID \<Rightarrow> Edge \<Rightarrow> nat \<Rightarrow> nat \<Rightarrow> Edge list \<Rightarrow>
   error + (nat \<times> Edge list)" where
  "skip_types m ty e offset index adj =
     (case GetType m index of
        Inl err \<Rightarrow> Inl err
      | Inr t \<Rightarrow>
          (if ty \<noteq> t then
             (case wr adj (offset + index) e of
                Inl err \<Rightarrow> Inl err
              | Inr adj' \<Rightarrow>
                  (if \<not> index + 1 < num_unique_types m then Inl AssertionFailed
                   else skip_types m ty e offset (index + 1) adj'))
           else Inr (index, adj)))"
  by pat_completeness auto
termination
  by (relation "measure (\<lambda>(m, ty, e, offset, index, adj). num_unique_types m - index)") auto

text \<open>The loop \<open>for (auto e : e_topo.OutEdges(N))\<close>.\<close>

fun walk_edges ::
  "PropertyGraph \<Rightarrow> CondensedTypeIDMap \<Rightarrow> 'a EdgeShuffleTopology_scheme \<Rightarrow> nat \<Rightarrow>
   Edge list \<Rightarrow> nat \<Rightarrow> Edge list \<Rightarrow> error + (nat \<times> Edge list)" where
  "walk_edges pg m t offset [] index adj = Inr (index, adj)"
| "walk_edges pg m t offset (e # es) index adj =
     (case edge_type pg t e of
        Inl err \<Rightarrow> Inl err
      | Inr ty \<Rightarrow>
          (case skip_types m ty e offset index adj of
             Inl err \<Rightarrow> Inl err
           | Inr (index', adj') \<Rightarrow> walk_edges pg m t offset es index' adj'))"

text \<open>The final loop \<open>while (index < edge_type_index.num_unique_types())\<close>.\<close>

function fill_rest ::
  "CondensedTypeIDMap \<Rightarrow> Edge \<Rightarrow> nat \<Rightarrow> nat \<Rightarrow> Edge list \<Rightarrow> error + Edge list" where
  "fill_rest m e offset index adj =
     (if index < num_unique_types m then
        (case wr adj (offset + index) e of
           Inl err \<Rightarrow> Inl err
         | Inr adj' \<Rightarrow> fill_rest m e offset (index + 1) adj')
      else Inr adj)"
  by pat_completeness auto
termination
  by (relation "measure (\<lambda>(m, e, offset, index, adj). num_unique_types m - index)") auto

declare skip_types.simps [simp del] fill_rest.simps [simp del]

text \<open>The body of the \<open>do_all\<close> over the nodes.\<close>

definition per_node_index ::
  "PropertyGraph \<Rightarrow> CondensedTypeIDMap \<Rightarrow> 'a EdgeShuffleTopology_scheme \<Rightarrow> Node \<Rightarrow>
   Edge list \<Rightarrow> error + Edge list" where
  "per_node_index pg m t N adj =
     (let offset = N * num_unique_types m
      in case OutEdges t N of
           Inl err \<Rightarrow> Inl err
         | Inr (e_beg, e_end) \<Rightarrow>
             (case walk_edges pg m t offset [e_beg..<e_end] 0 adj of
                Inl err \<Rightarrow> Inl err
              | Inr (index, adj') \<Rightarrow> fill_rest m e_end offset index adj'))"

text \<open>
  \<open>CreatePerEdgeTypeAdjacencyIndex\<close>.  The argument \<open>order\<close> is the order in which the
  \<open>do_all\<close> runs the nodes.  The freshly allocated array is filled with zeros here.
\<close>

definition CreatePerEdgeTypeAdjacencyIndex ::
  "PropertyGraph \<Rightarrow> CondensedTypeIDMap \<Rightarrow> 'a EdgeShuffleTopology_scheme \<Rightarrow> Node list \<Rightarrow>
   error + Edge list" where
  "CreatePerEdgeTypeAdjacencyIndex pg edge_type_index e_topo order =
     (if empty_topo e_topo then
        (if \<not> NumEdges e_topo = 0 then Inl AssertionFailed else Inr [])
      else if num_unique_types edge_type_index = 0 then
        (if \<not> NumEdges e_topo = 0 then Inl AssertionFailed else Inr [])
      else
        (let sz = NumNodes e_topo * num_unique_types edge_type_index
         in do_all (per_node_index pg edge_type_index e_topo) order (replicate sz 0)))"

text \<open>
  \<open>class EdgeTypeAwareTopology\<close>: an edge-shuffle topology with the condensed type map
  and the per-type adjacency table.
\<close>

record EdgeTypeAwareTopology = EdgeShuffleTopology +
  edge_type_index :: CondensedTypeIDMap
  per_type_adj_indices :: "Edge list"

text \<open>\<open>EdgeTypeAwareTopology::MakeFrom\<close>, with its two debug assertions.\<close>

definition MakeFrom ::
  "PropertyGraph \<Rightarrow> CondensedTypeIDMap \<Rightarrow> EdgeShuffleTopology \<Rightarrow> Node list \<Rightarrow>
   error + EdgeTypeAwareTopology" where
  "MakeFrom pg edge_type_idx e_topo order =
     (if \<not> has_edges_sorted_by e_topo kSortedByEdgeType then Inl AssertionFailed
      else if \<not> NumEdges e_topo = NumEdges (topology pg) then Inl AssertionFailed
      else
        (case CreatePerEdgeTypeAdjacencyIndex pg edge_type_idx e_topo order of
           Inl err \<Rightarrow> Inl err
         | Inr per_type_adj \<Rightarrow>
             Inr \<lparr>adj_indices = adj_indices e_topo, dests = dests e_topo,
                  edge_prop_indices = edge_prop_indices e_topo,
                  node_prop_indices = node_prop_indices e_topo,
                  tpose_state = tpose_state e_topo, edge_sort_state = edge_sort_state e_topo,
                  edge_type_index = edge_type_idx, per_type_adj_indices = per_type_adj\<rparr>))"

text \<open>
  Modelled from the spec: \<open>OutEdges(N, type)\<close> of the edge-type-aware topology is
  declared in the missing header.  The spec: edges of node \<open>n\<close> with type index \<open>t\<close>
  occupy \<open>[per_type_adj[n*T + t-1] .. per_type_adj[n*T + t])\<close>, with the base of node \<open>n\<close>
  for \<open>t = 0\<close>.
\<close>

definition OutEdges_of_type ::
  "EdgeTypeAwareTopology \<Rightarrow> Node \<Rightarrow> nat \<Rightarrow> error + (Edge \<times> Edge)" where
  "OutEdges_of_type v n t =
     (let T = num_unique_types (edge_type_index v)
      in if \<not> t < T then Inl OutOfBounds
         else
           (case OutEdges v n of
              Inl err \<Rightarrow> Inl err
            | Inr (e_beg, e_end) \<Rightarrow>
                (case rd (per_type_adj_indices v) (n * T + t) of
                   Inl err \<Rightarrow> Inl err
                 | Inr type_end \<Rightarrow>
                     (if t = 0 then Inr (e_beg, type_end)
                      else
                        (case rd (per_type_adj_indices v) (n * T + t - 1) of
                           Inl err \<Rightarrow> Inl err
                         | Inr type_beg \<Rightarrow> Inr (type_beg, type_end))))))"

text \<open>
  The view is sorted by edge type: the types of the out-edges of every node, in edge
  order, are defined and ascending.  The condensed map covers the view: all those types
  occur in its dense vector.
\<close>

definition node_edge_types ::
  "PropertyGraph \<Rightarrow> 'a GraphTopology_scheme \<Rightarrow> Node \<Rightarrow> EntityTypeID list option" where
  "node_edge_types pg t n =
     (case OutEdges t n of
        Inl err \<Rightarrow> None
      | Inr (e_beg, e_end) \<Rightarrow>
          those (map (\<lambda>e. case edge_type pg t e of Inl err \<Rightarrow> None | Inr ty \<Rightarrow> Some ty)
                   [e_beg..<e_end]))"

definition sorted_by_edge_type :: "PropertyGraph \<Rightarrow> 'a GraphTopology_scheme \<Rightarrow> bool" where
  "sorted_by_edge_type pg t =
     list_all (\<lambda>n. case node_edge_types pg t n of None \<Rightarrow> False | Some tys \<Rightarrow> sorted tys)
       (Nodes t)"

definition covers_edge_types ::
  "CondensedTypeIDMap \<Rightarrow> PropertyGraph \<Rightarrow> 'a GraphTopology_scheme \<Rightarrow> bool" where
  "covers_edge_types m pg t =
     list_all (\<lambda>n. case node_edge_types pg t n of
                    None \<Rightarrow> False
                  | Some tys \<Rightarrow> list_all (\<lambda>ty. ty \<in> set (index_to_type_map m)) tys)
       (Nodes t)"

text \<open>
  The out-edges of node \<open>n\<close> in the view \<open>e_topo\<close> whose type is the type that the
  condensed map \<open>m\<close> has at the dense index \<open>t\<close>.
\<close>

definition edges_of_type ::
  "PropertyGraph \<Rightarrow> CondensedTypeIDMap \<Rightarrow> 'a GraphTopology_scheme \<Rightarrow> Node \<Rightarrow> nat \<Rightarrow>
   Edge set" where
  "edges_of_type pg m e_topo n t =
     (case OutEdges e_topo n of
        Inl err \<Rightarrow> {}
      | Inr (e_beg, e_end) \<Rightarrow>
          (case GetType m t of
             Inl err \<Rightarrow> {}
           | Inr ty \<Rightarrow> {e \<in> {e_beg..<e_end}. edge_type pg e_topo e = Inr ty}))"

text \<open>The set of edges of a half-open range returned by an accessor.\<close>

definition range_set :: "error + (Edge \<times> Edge) \<Rightarrow> Edge set" where
  "range_set r = (case r of Inl err \<Rightarrow> {} | Inr (e_beg, e_end) \<Rightarrow> {e_beg..<e_end})"

text \<open>
  The type of an edge as a total function (0 where the lookup fails), and the position
  at which the edges of type at most \<open>c\<close> end within the sorted range \<open>[b, e_end)\<close>.
\<close>

definition type_or_0 :: "PropertyGraph \<Rightarrow> 'a GraphTopology_scheme \<Rightarrow> Edge \<Rightarrow> EntityTypeID" where
  "type_or_0 pg t e = (case edge_type pg t e of Inl err \<Rightarrow> 0 | Inr ty \<Rightarrow> ty)"

definition boundary ::
  "(Edge \<Rightarrow> EntityTypeID) \<Rightarrow> Edge \<Rightarrow> Edge \<Rightarrow> EntityTypeID \<Rightarrow> Edge \<Rightarrow> bool" where
  "boundary tyf b e_end c p =
     (b \<le> p \<and> p \<le> e_end \<and> (\<forall>x \<in> {b..<p}. tyf x \<le> c) \<and> (\<forall>x \<in> {p..<e_end}. c < tyf x))"

text \<open>
  What sortedness by type and coverage by the condensed map say about the edge range
  \<open>[b, e_end)\<close> of one node, for the dense vector \<open>idx\<close>.
\<close>

definition node_sorted ::
  "(Edge \<Rightarrow> EntityTypeID) \<Rightarrow> EntityTypeID list \<Rightarrow> Edge \<Rightarrow> Edge \<Rightarrow> bool" where
  "node_sorted tyf idx b e_end =
     (b \<le> e_end \<and> sorted idx \<and> distinct idx \<and>
      (\<forall>x \<in> {b..<e_end}. tyf x \<in> set idx) \<and>
      (\<forall>x \<in> {b..<e_end}. \<forall>y \<in> {x..<e_end}. tyf x \<le> tyf y))"

text \<open>The dense vector of a condensed map is strictly ascending, as \<open>MakeFromEdgeTypes\<close>
  builds it.\<close>

definition strictly_ascending :: "CondensedTypeIDMap \<Rightarrow> bool" where
  "strictly_ascending m = (sorted (index_to_type_map m) \<and> distinct (index_to_type_map m))"

text \<open>The contract of \<open>do_all\<close> over the nodes: the body runs once for every node.\<close>

definition do_all_nodes :: "'a GraphTopology_scheme \<Rightarrow> Node list \<Rightarrow> bool" where
  "do_all_nodes t order = (sort order = Nodes t)"

section \<open>Sorting the edges of a view\<close>

text \<open>
  \<open>std::sort\<close> belongs to the C++ standard library, not to the sources, and is a
  parameter \<open>srt\<close> of the model.  For a comparator that is a strict weak ordering the
  standard requires the result to be a permutation of the range that is sorted with
  respect to the comparator; the order of equivalent elements is not specified.
\<close>

type_synonym 'a sort_fn = "('a \<Rightarrow> 'a \<Rightarrow> bool) \<Rightarrow> 'a list \<Rightarrow> 'a list"

definition strict_weak_order :: "('a \<Rightarrow> 'a \<Rightarrow> bool) \<Rightarrow> bool" where
  "strict_weak_order cmp =
     ((\<forall>a. \<not> cmp a a) \<and>
      (\<forall>a b c. cmp a b \<longrightarrow> cmp b c \<longrightarrow> cmp a c) \<and>
      (\<forall>a b c. \<not> cmp a b \<and> \<not> cmp b a \<longrightarrow> \<not> cmp b c \<and> \<not> cmp c b \<longrightarrow> \<not> cmp a c \<and> \<not> cmp c a))"

definition std_sort_contract :: "'a sort_fn \<Rightarrow> bool" where
  "std_sort_contract srt =
     (\<forall>cmp xs. strict_weak_order cmp \<longrightarrow>
        mset (srt cmp xs) = mset xs \<and> sorted_wrt (\<lambda>a b. \<not> cmp b a) (srt cmp xs))"

text \<open>The cells \<open>[b, e)\<close> of an array.\<close>

definition slice :: "nat \<Rightarrow> nat \<Rightarrow> 'a list \<Rightarrow> 'a list" where
  "slice b e xs = take (e - b) (drop b xs)"

text \<open>
  The body that both sort operations run for one node: sort the node's cells of
  \<open>edge_prop_indices_\<close> and \<open>dests_\<close> jointly, as a range of tuples, with the given
  comparator.  The state is the pair of the two arrays.
\<close>

definition sort_node_edges ::
  "(PropertyIndex \<times> Node) sort_fn \<Rightarrow> (PropertyIndex \<times> Node \<Rightarrow> PropertyIndex \<times> Node \<Rightarrow> bool) \<Rightarrow>
   'a GraphTopology_scheme \<Rightarrow> Node \<Rightarrow> PropertyIndex list \<times> Node list \<Rightarrow>
   error + (PropertyIndex list \<times> Node list)" where
  "sort_node_edges srt cmp t node st =
     (case st of (epi, ds) \<Rightarrow>
        (case OutEdges t node of
           Inl err \<Rightarrow> Inl err
         | Inr (e_beg, e_end) \<Rightarrow>
             (if e_end \<le> length epi \<and> e_end \<le> length ds then
                (let tups = srt cmp (zip (slice e_beg e_end epi) (slice e_beg e_end ds))
                 in Inr (take e_beg epi @ map fst tups @ drop e_end epi,
                         take e_beg ds @ map snd tups @ drop e_end ds))
              else Inl OutOfBounds)))"

subsection \<open>SortEdgesByDestID\<close>

definition dest_less :: "PropertyIndex \<times> Node \<Rightarrow> PropertyIndex \<times> Node \<Rightarrow> bool" where
  "dest_less tup1 tup2 = (let dst1 = snd tup1; dst2 = snd tup2 in dst1 < dst2)"

text \<open>The loop body with its debug assertion that the node's destinations are sorted.\<close>

definition sort_node_by_dest ::
  "(PropertyIndex \<times> Node) sort_fn \<Rightarrow> 'a GraphTopology_scheme \<Rightarrow> Node \<Rightarrow>
   PropertyIndex list \<times> Node list \<Rightarrow> error + (PropertyIndex list \<times> Node list)" where
  "sort_node_by_dest srt t node st =
     (case sort_node_edges srt dest_less t node st of
        Inl err \<Rightarrow> Inl err
      | Inr (epi, ds) \<Rightarrow>
          (case OutEdges t node of
             Inl err \<Rightarrow> Inl err
           | Inr (e_beg, e_end) \<Rightarrow>
               (if \<not> sorted (slice e_beg e_end ds) then Inl AssertionFailed
                else Inr (epi, ds))))"

definition SortEdgesByDestID ::
  "(PropertyIndex \<times> Node) sort_fn \<Rightarrow> Node list \<Rightarrow> EdgeShuffleTopology \<Rightarrow>
   error + EdgeShuffleTopology" where
  "SortEdgesByDestID srt order v =
     (case do_all (sort_node_by_dest srt v) order (edge_prop_indices v, dests v) of
        Inl err \<Rightarrow> Inl err
      | Inr (epi, ds) \<Rightarrow>
          Inr (v\<lparr>edge_prop_indices := epi, dests := ds, edge_sort_state := kSortedByDestID\<rparr>))"

subsection \<open>SortEdgesByTypeThenDest\<close>

text \<open>
  The type of a property index as a total function.  The comparator is the only place
  where \<open>SortEdgesByTypeThenDest\<close> looks a type up.  \<open>std::sort\<close> does not call it on a range
  of fewer than two tuples, and on a longer range it compares every tuple at least once;
  so the loop body reads outside the type column exactly when the node has two or more
  edges and one of their property indices has no type.
\<close>

definition type_of_prop :: "PropertyGraph \<Rightarrow> PropertyIndex \<Rightarrow> EntityTypeID" where
  "type_of_prop pg i = (case GetTypeOfEdgeFromPropertyIndex pg i of Inl err \<Rightarrow> 0 | Inr ty \<Rightarrow> ty)"

definition type_then_dest_less ::
  "PropertyGraph \<Rightarrow> PropertyIndex \<times> Node \<Rightarrow> PropertyIndex \<times> Node \<Rightarrow> bool" where
  "type_then_dest_less pg tup1 tup2 =
     (let e1 = fst tup1; e2 = fst tup2;
          data1 = type_of_prop pg e1; data2 = type_of_prop pg e2
      in if data1 \<noteq> data2 then data1 < data2
         else (let dst1 = snd tup1; dst2 = snd tup2 in dst1 < dst2))"

definition sort_node_by_type_then_dest ::
  "(PropertyIndex \<times> Node) sort_fn \<Rightarrow> PropertyGraph \<Rightarrow> 'a GraphTopology_scheme \<Rightarrow> Node \<Rightarrow>
   PropertyIndex list \<times> Node list \<Rightarrow> error + (PropertyIndex list \<times> Node list)" where
  "sort_node_by_type_then_dest srt pg t node st =
     (case OutEdges t node of
        Inl err \<Rightarrow> Inl err
      | Inr (e_beg, e_end) \<Rightarrow>
          (let props = slice e_beg e_end (fst st)
           in if 2 \<le> length props
                 \<and> \<not> list_all (\<lambda>i. i < length (edge_entity_type_ids pg)) props
              then Inl OutOfBounds
              else sort_node_edges srt (type_then_dest_less pg) t node st))"

definition SortEdgesByTypeThenDest ::
  "(PropertyIndex \<times> Node) sort_fn \<Rightarrow> PropertyGraph \<Rightarrow> Node list \<Rightarrow> EdgeShuffleTopology \<Rightarrow>
   error + EdgeShuffleTopology" where
  "SortEdgesByTypeThenDest srt pg order v =
     (case do_all (sort_node_by_type_then_dest srt pg v) order
             (edge_prop_indices v, dests v) of
        Inl err \<Rightarrow> Inl err
      | Inr (epi, ds) \<Rightarrow>
          Inr (v\<lparr>edge_prop_indices := epi, dests := ds, edge_sort_state := kSortedByEdgeType\<rparr>))"

subsection \<open>Sortedness of a view by the two keys, and two sorting algorithms\<close>

text \<open>
  The sort key of a tuple under the second comparator, ordered lexicographically, and
  the out-edges of every node ascending in that key.  A view of edge-shuffle kind
  carries one property index per edge.
\<close>

definition type_dest_key :: "PropertyGraph \<Rightarrow> PropertyIndex \<times> Node \<Rightarrow> EntityTypeID \<times> Node" where
  "type_dest_key pg tup = (type_of_prop pg (fst tup), snd tup)"

definition node_tuples :: "'a GraphTopology_scheme \<Rightarrow> Node \<Rightarrow> (PropertyIndex \<times> Node) list" where
  "node_tuples t n =
     (case OutEdges t n of
        Inl err \<Rightarrow> []
      | Inr (e_beg, e_end) \<Rightarrow> slice e_beg e_end (zip (edge_prop_indices t) (dests t)))"

definition sorted_by_type_then_dest :: "PropertyGraph \<Rightarrow> 'a GraphTopology_scheme \<Rightarrow> bool" where
  "sorted_by_type_then_dest pg t =
     list_all (\<lambda>n. sorted (map (type_dest_key pg) (node_tuples t n))
                   \<and> list_all (\<lambda>tup. fst tup < length (edge_entity_type_ids pg)) (node_tuples t n))
       (Nodes t)"

definition edge_shuffle_ok :: "'a GraphTopology_scheme \<Rightarrow> bool" where
  "edge_shuffle_ok t = (valid_csr t \<and> length (edge_prop_indices t) = length (dests t))"

text \<open>No two out-edges of a node have the same key.\<close>

definition distinct_keys :: "(PropertyIndex \<times> Node \<Rightarrow> 'k) \<Rightarrow> 'a GraphTopology_scheme \<Rightarrow> bool" where
  "distinct_keys key t = list_all (\<lambda>n. distinct (map key (node_tuples t n))) (Nodes t)"

text \<open>
  Two insertion sorts.  Both insert the elements from the last to the first; the first
  one puts an element before the elements equivalent to it and keeps equivalent elements
  in their order, the second puts it after them and reverses their order.
\<close>

fun insert_before :: "('a \<Rightarrow> 'a \<Rightarrow> bool) \<Rightarrow> 'a \<Rightarrow> 'a list \<Rightarrow> 'a list" where
  "insert_before cmp x [] = [x]"
| "insert_before cmp x (y # ys) =
     (if cmp y x then y # insert_before cmp x ys else x # y # ys)"

definition stable_insertion_sort :: "'a sort_fn" where
  "stable_insertion_sort cmp xs = foldr (insert_before cmp) xs []"

fun insert_after :: "('a \<Rightarrow> 'a \<Rightarrow> bool) \<Rightarrow> 'a \<Rightarrow> 'a list \<Rightarrow> 'a list" where
  "insert_after cmp x [] = [x]"
| "insert_after cmp x (y # ys) =
     (if cmp x y then x # y # ys else y # insert_after cmp x ys)"

definition reversing_insertion_sort :: "'a sort_fn" where
  "reversing_insertion_sort cmp xs = foldr (insert_after cmp) xs []"

text \<open>
  The bounds of a node's edge range read off \<open>adj_indices\<close>, and what every step of a
  sort of a sorted view keeps of the arrays, relative to the tuples \<open>zs0\<close> before the
  sort: the lengths, the sequence of keys, the multiset of every node's tuples, and,
  if no node has two edges with the same key (\<open>dk\<close>), the tuples themselves.
\<close>

definition range_beg :: "'a GraphTopology_scheme \<Rightarrow> Node \<Rightarrow> Edge" where
  "range_beg t n = (if n = 0 then 0 else adj_indices t ! (n - 1))"

definition range_end :: "'a GraphTopology_scheme \<Rightarrow> Node \<Rightarrow> Edge" where
  "range_end t n = adj_indices t ! n"

definition sort_inv ::
  "(PropertyIndex \<times> Node \<Rightarrow> 'k) \<Rightarrow> 'a GraphTopology_scheme \<Rightarrow> bool \<Rightarrow>
   (PropertyIndex \<times> Node) list \<Rightarrow> PropertyIndex list \<times> Node list \<Rightarrow> bool" where
  "sort_inv k t dk zs0 st =
     (case st of (epi, ds) \<Rightarrow>
        length epi = length zs0 \<and> length ds = length zs0 \<and>
        map k (zip epi ds) = map k zs0 \<and>
        (\<forall>n<NumNodes t. mset (slice (range_beg t n) (range_end t n) (zip epi ds))
                         = mset (slice (range_beg t n) (range_end t n) zs0)) \<and>
        (dk \<longrightarrow> zip epi ds = zs0))"

section \<open>MakeTransposeCopy\<close>

text \<open>
  The body of the first \<open>do_all\<close>, over the edges: the atomic increment of the counter
  of the edge's destination.
\<close>

definition count_in_edge :: "'a GraphTopology_scheme \<Rightarrow> Edge \<Rightarrow> Edge list \<Rightarrow> error + Edge list" where
  "count_in_edge t e out_indices =
     (case OutEdgeDst t e of
        Inl err \<Rightarrow> Inl err
      | Inr dest \<Rightarrow>
          (case rd out_indices dest of
             Inl err \<Rightarrow> Inl err
           | Inr c \<Rightarrow> Inr (out_indices[dest := c + 1])))"

text \<open>\<open>ParallelSTL::partial_sum\<close> in place: the inclusive prefix sums.\<close>

fun partial_sum_from :: "nat \<Rightarrow> nat list \<Rightarrow> nat list" where
  "partial_sum_from acc [] = []"
| "partial_sum_from acc (x # xs) = (acc + x) # partial_sum_from (acc + x) xs"

definition partial_sum :: "nat list \<Rightarrow> nat list" where
  "partial_sum xs = partial_sum_from 0 xs"

text \<open>
  \<open>out_dests_offset\<close>: cell 0 is 0 and the second \<open>do_all\<close> sets cell \<open>n\<close> to
  \<open>out_indices[n - 1]\<close> for the nodes \<open>n\<close> from 1.
\<close>

definition make_out_dests_offset :: "Edge list \<Rightarrow> Edge list" where
  "make_out_dests_offset out_indices =
     map (\<lambda>n. if n = 0 then 0 else out_indices ! (n - 1)) [0..<length out_indices]"

text \<open>
  The body of the innermost loop of the third \<open>do_all\<close>, for the out-edge \<open>e\<close> of the
  node \<open>src\<close>: fetch and increment the write position of the destination, then store
  the source and the property index of the edge at that position.  The state is
  \<open>out_dests_offset\<close>, \<open>out_dests\<close> and \<open>edge_prop_indices\<close>.
\<close>

definition scatter_edge ::
  "'a GraphTopology_scheme \<Rightarrow> Node \<times> Edge \<Rightarrow> Edge list \<times> Node list \<times> PropertyIndex list \<Rightarrow>
   error + (Edge list \<times> Node list \<times> PropertyIndex list)" where
  "scatter_edge t item st =
     (case item of (src, e) \<Rightarrow>
      case st of (out_dests_offset, out_dests, edge_prop_idx) \<Rightarrow>
        (case OutEdgeDst t e of
           Inl err \<Rightarrow> Inl err
         | Inr dest \<Rightarrow>
        (case rd out_dests_offset dest of
           Inl err \<Rightarrow> Inl err
         | Inr e_new \<Rightarrow>
        (case wr out_dests e_new src of
           Inl err \<Rightarrow> Inl err
         | Inr out_dests' \<Rightarrow>
        (case GetEdgePropertyIndexFromOutEdge t e of
           Inl err \<Rightarrow> Inl err
         | Inr p \<Rightarrow>
        (case wr edge_prop_idx e_new p of
           Inl err \<Rightarrow> Inl err
         | Inr edge_prop_idx' \<Rightarrow>
             Inr (out_dests_offset[dest := e_new + 1], out_dests', edge_prop_idx')))))))"

text \<open>
  \<open>MakeTransposeCopy\<close>, on the topology \<open>pg->topology()\<close>, which is all it reads of the
  property graph.  The two schedules are the order in which the first \<open>do_all\<close> runs
  the edges and the order in which the fetch-and-add operations of the third \<open>do_all\<close>
  take effect, each standing for an out-edge \<open>e\<close> of a node \<open>src\<close>.  The freshly
  allocated arrays are filled with zeros here.
\<close>

definition MakeTransposeCopy ::
  "'a GraphTopology_scheme \<Rightarrow> Edge list \<Rightarrow> (Node \<times> Edge) list \<Rightarrow> error + EdgeShuffleTopology" where
  "MakeTransposeCopy topo edge_order scatter_order =
     (if empty_topo topo then
        Inr \<lparr>adj_indices = [], dests = [], edge_prop_indices = [], node_prop_indices = [],
             tpose_state = kYes, edge_sort_state = kAny\<rparr>
      else
        (case do_all (count_in_edge topo) edge_order (replicate (NumNodes topo) 0) of
           Inl err \<Rightarrow> Inl err
         | Inr counted \<Rightarrow>
             (let out_indices = partial_sum counted;
                  out_dests_offset = make_out_dests_offset out_indices
              in case do_all (scatter_edge topo) scatter_order
                        (out_dests_offset, replicate (NumEdges topo) 0,
                         replicate (NumEdges topo) 0) of
                   Inl err \<Rightarrow> Inl err
                 | Inr (offs, out_dests, edge_prop_idx) \<Rightarrow>
                     Inr \<lparr>adj_indices = out_indices, dests = out_dests,
                          edge_prop_indices = edge_prop_idx, node_prop_indices = [],
                          tpose_state = kYes, edge_sort_state = kAny\<rparr>)))"

subsection \<open>The edges of a topology as triples\<close>

text \<open>
  All out-edges of a topology, each with its source node, in node order; the contract
  of the two \<open>do_all\<close> loops of \<open>MakeTransposeCopy\<close>: the first runs every edge once, the
  third every out-edge of every node once.
\<close>

definition out_edge_list :: "'a GraphTopology_scheme \<Rightarrow> (Node \<times> Edge) list" where
  "out_edge_list t =
     concat (map (\<lambda>src. map (Pair src) [range_beg t src..<range_end t src]) (Nodes t))"

definition transpose_schedules ::
  "'a GraphTopology_scheme \<Rightarrow> Edge list \<Rightarrow> (Node \<times> Edge) list \<Rightarrow> bool" where
  "transpose_schedules t edge_order scatter_order =
     (sort edge_order = [0..<NumEdges t] \<and> sort scatter_order = sort (out_edge_list t))"

text \<open>
  The property index of an edge (the edge itself when the topology has no property
  index array), and the multiset of (source, destination, property index) triples of a
  topology.
\<close>

definition edge_prop :: "'a GraphTopology_scheme \<Rightarrow> Edge \<Rightarrow> PropertyIndex" where
  "edge_prop t e = (if edge_prop_indices t = [] then e else edge_prop_indices t ! e)"

definition edge_triples :: "'a GraphTopology_scheme \<Rightarrow> (Node \<times> Node \<times> PropertyIndex) multiset" where
  "edge_triples t = mset (map (\<lambda>(src, e). (src, dests t ! e, edge_prop t e)) (out_edge_list t))"

text \<open>The number of in-edges of every node.\<close>

definition in_degrees :: "'a GraphTopology_scheme \<Rightarrow> nat list" where
  "in_degrees t = map (count_list (dests t)) (Nodes t)"

definition swap_ends :: "Node \<times> Node \<times> PropertyIndex \<Rightarrow> Node \<times> Node \<times> PropertyIndex" where
  "swap_ends tr = (case tr of (src, dst, p) \<Rightarrow> (dst, src, p))"

text \<open>
  For the scatter loop: the first cell of the block of a node in the transposed arrays
  (the exclusive prefix sum of the counts \<open>c\<close>), the items of a schedule whose edge goes
  to a given node, and what holds of the three arrays after the items \<open>ps\<close> have run:
  the write position of every node has advanced by the number of its items, and its
  block holds their sources and property indices in the order in which they ran.
\<close>

definition starts :: "nat list \<Rightarrow> nat \<Rightarrow> nat" where
  "starts c d = sum_list (take d c)"

definition dest_items :: "'a GraphTopology_scheme \<Rightarrow> Node \<Rightarrow> (Node \<times> Edge) list \<Rightarrow> (Node \<times> Edge) list" where
  "dest_items t d ps = filter (\<lambda>item. dests t ! snd item = d) ps"

definition scatter_inv ::
  "'a GraphTopology_scheme \<Rightarrow> nat list \<Rightarrow> (Node \<times> Edge) list \<Rightarrow>
   Edge list \<times> Node list \<times> PropertyIndex list \<Rightarrow> bool" where
  "scatter_inv t c ps st =
     (case st of (offs, od, epi) \<Rightarrow>
        length offs = NumNodes t \<and> length od = NumEdges t \<and> length epi = NumEdges t \<and>
        (\<forall>d<NumNodes t. offs ! d = starts c d + length (dest_items t d ps)) \<and>
        (\<forall>d<NumNodes t. \<forall>j<length (dest_items t d ps).
            od ! (starts c d + j) = fst (dest_items t d ps ! j) \<and>
            epi ! (starts c d + j) = edge_prop t (snd (dest_items t d ps ! j))))"

section \<open>Concrete topologies and caches\<close>

text \<open>
  Scenario S1 of the specification as an edge-shuffle view tagged as sorted by
  destination: four nodes, five edges, every node's destinations ascending.
\<close>

definition S1_sorted :: EdgeShuffleTopology where
  "S1_sorted =
     \<lparr>adj_indices = [2, 2, 3, 5], dests = [1, 2, 3, 0, 2],
      edge_prop_indices = [0, 1, 2, 3, 4], node_prop_indices = [],
      tpose_state = kNo, edge_sort_state = kSortedByDestID\<rparr>"

text \<open>
  Two nodes; node 0 has 65 parallel edges to node 0, node 1 has none.  The view is
  sorted by destination and node 0 is the last node with edges.
\<close>

definition loops65 :: EdgeShuffleTopology where
  "loops65 =
     \<lparr>adj_indices = [65, 65], dests = replicate 65 0,
      edge_prop_indices = [0..<65], node_prop_indices = [],
      tpose_state = kNo, edge_sort_state = kSortedByDestID\<rparr>"

text \<open>
  Two nodes; node 0 has 65 edges, the first to node 1 and the others to node 0; node 1
  has one edge to node 0.  The view is not sorted.
\<close>

definition unsorted65 :: EdgeShuffleTopology where
  "unsorted65 =
     \<lparr>adj_indices = [65, 66], dests = 1 # replicate 65 0,
      edge_prop_indices = [0..<66], node_prop_indices = [],
      tpose_state = kNo, edge_sort_state = kAny\<rparr>"

text \<open>A topology of two nodes and two edges that carries both property index arrays.\<close>

definition two_cycle :: GraphTopology where
  "two_cycle =
     \<lparr>adj_indices = [1, 2], dests = [1, 0],
      edge_prop_indices = [1, 0], node_prop_indices = [0, 1]\<rparr>"

text \<open>Three cache keys, an empty cache of capacity two entries, and the same cache
  after \<open>key1\<close> has been inserted with value 10.\<close>

definition key1 :: KeyBase where
  "key1 = \<lparr>node_edge = kNode, name = ''k1''\<rparr>"

definition key2 :: KeyBase where
  "key2 = \<lparr>node_edge = kNode, name = ''k2''\<rparr>"

definition key3 :: KeyBase where
  "key3 = \<lparr>node_edge = kEdge, name = ''k3''\<rparr>"

definition lru2_cache :: "nat Cache" where
  "lru2_cache =
     \<lparr>key_to_value = Map.empty, lru_list = [], next_node = 0, total_bytes = 0,
      policy = kLRU, lru_capacity = 2, byte_capacity = 0,
      has_evict_cb = True, evict_cb_calls = [], value_to_bytes = None\<rparr>"

definition one_entry_cache :: "nat Cache" where
  "one_entry_cache =
     \<lparr>key_to_value = [key1 \<mapsto> (10, 0)], lru_list = [(0, key1)], next_node = 1,
      total_bytes = 0, policy = kLRU, lru_capacity = 2, byte_capacity = 0,
      has_evict_cb = True, evict_cb_calls = [], value_to_bytes = None\<rparr>"

text \<open>An empty cache with a budget of 100 bytes, where a value is its own size.\<close>

definition bytes100_cache :: "nat Cache" where
  "bytes100_cache =
     \<lparr>key_to_value = Map.empty, lru_list = [], next_node = 0, total_bytes = 0,
      policy = kSize, lru_capacity = 0, byte_capacity = 100,
      has_evict_cb = True, evict_cb_calls = [], value_to_bytes = Some of_nat\<rparr>"

text \<open>
  Scenario S1 as a property graph whose five edges have the types 7, 3, 7, 3, 9.
\<close>

definition S1_graph :: PropertyGraph where
  "S1_graph =
     \<lparr>topology = \<lparr>adj_indices = [2, 2, 3, 5], dests = [1, 2, 3, 0, 2],
                  edge_prop_indices = [], node_prop_indices = []\<rparr>,
      edge_entity_type_ids = [7, 3, 7, 3, 9]\<rparr>"

text \<open>
  Scenario S1 with every node's edges sorted by type: the property graph \<open>S1_graph\<close>
  gives property rows 0 to 4 the types 7, 3, 7, 3, 9, and the view lists node 0's edges
  as rows 1, 0 and node 3's edges as rows 3, 4.  Its condensed map has the three types
  3, 7, 9.
\<close>

definition S1_by_type :: EdgeShuffleTopology where
  "S1_by_type =
     \<lparr>adj_indices = [2, 2, 3, 5], dests = [2, 1, 3, 0, 2],
      edge_prop_indices = [1, 0, 2, 3, 4], node_prop_indices = [],
      tpose_state = kNo, edge_sort_state = kSortedByEdgeType\<rparr>"

definition S1_types :: CondensedTypeIDMap where
  "S1_types = \<lparr>type_to_index_map = [3 \<mapsto> 0, 7 \<mapsto> 1, 9 \<mapsto> 2], index_to_type_map = [3, 7, 9]\<rparr>"

text \<open>
  A view of two nodes in which node 0 has 17 parallel edges to node 1, with the
  property indices 0 to 16 in edge order.  All 17 edges have the same destination, and
  in \<open>parallel17_graph\<close> the same type, so the view is sorted under both keys.
\<close>

definition parallel17 :: EdgeShuffleTopology where
  "parallel17 =
     \<lparr>adj_indices = [17, 17], dests = replicate 17 1,
      edge_prop_indices = [0..<17], node_prop_indices = [],
      tpose_state = kNo, edge_sort_state = kSortedByDestID\<rparr>"

definition parallel17_graph :: PropertyGraph where
  "parallel17_graph =
     \<lparr>topology = \<lparr>adj_indices = [17, 17], dests = replicate 17 1,
                  edge_prop_indices = [], node_prop_indices = []\<rparr>,
      edge_entity_type_ids = replicate 17 5\<rparr>"

text \<open>Scenario S1 as a base topology, without property index arrays.\<close>

definition S1_base :: GraphTopology where
  "S1_base =
     \<lparr>adj_indices = [2, 2, 3, 5], dests = [1, 2, 3, 0, 2],
      edge_prop_indices = [], node_prop_indices = []\<rparr>"

text \<open>
  The transpose of \<open>S1_base\<close> that \<open>MakeTransposeCopy\<close> returns when the scatter loop runs
  the out-edges in the order (3,3), (0,0), (3,4), (0,1), (2,2).
\<close>

definition S1_transposed :: EdgeShuffleTopology where
  "S1_transposed =
     \<lparr>adj_indices = [1, 2, 4, 5], dests = [3, 0, 3, 0, 2],
      edge_prop_indices = [3, 0, 4, 1, 2], node_prop_indices = [],
      tpose_state = kYes, edge_sort_state = kAny\<rparr>"

section \<open>The property cache\<close>

lemma keys_listed_evict_tail:
  "keys_listed c \<Longrightarrow> lru_list c \<noteq> [] \<Longrightarrow> keys_listed (evict_tail c)"
proof -
  assume a: "keys_listed c" and ne: "lru_list c \<noteq> []"
  have "set (lru_list c) = insert (last (lru_list c)) (set (butlast (lru_list c)))"
    using ne by (metis append_butlast_last_id list.set(1) list.simps(15) set_append Un_insert_right sup_bot.right_neutral)
  then show ?thesis using a
    by (auto simp: keys_listed_def evict_tail_def Let_def)
qed

lemma size_le_length: "keys_listed c \<Longrightarrow> size_c c \<le> length (lru_list c)"
proof -
  assume "keys_listed c"
  then have "card (dom (key_to_value c)) \<le> card (snd ` set (lru_list c))"
    unfolding keys_listed_def by (intro card_mono) auto
  also have "\<dots> \<le> card (set (lru_list c))" by (rule card_image_le) simp
  also have "\<dots> \<le> length (lru_list c)" by (rule card_length)
  finally show ?thesis by (simp add: size_c_def)
qed

lemma finite_dom_listed: "keys_listed c \<Longrightarrow> finite (dom (key_to_value c))"
  unfolding keys_listed_def by (rule finite_subset) auto

lemma size_evict_tail_ge:
  "keys_listed c \<Longrightarrow> size_c (evict_tail c) \<ge> size_c c - 1"
  using finite_dom_listed[of c]
  by (auto simp: size_c_def evict_tail_def Let_def card_Diff_singleton_if)

lemma policy_evict_tail [simp]: "policy (evict_tail c) = policy c"
  "lru_capacity (evict_tail c) = lru_capacity c"
  "byte_capacity (evict_tail c) = byte_capacity c"
  "value_to_bytes (evict_tail c) = value_to_bytes c"
  by (simp_all add: evict_tail_def Let_def)

lemma evict_lru_ok:
  "keys_listed c \<Longrightarrow> \<exists>c'. evict_lru c = Inr c' \<and> keys_listed c' \<and> size_c c' \<le> lru_capacity c'
      \<and> policy c' = policy c \<and> value_to_bytes c' = value_to_bytes c
      \<and> lru_capacity c' = lru_capacity c \<and> byte_capacity c' = byte_capacity c"
proof (induction c rule: evict_lru.induct)
  case (1 c)
  show ?case
  proof (cases "size_c c > lru_capacity c")
    case True
    with size_le_length[OF "1.prems"] have ne: "lru_list c \<noteq> []" by auto
    from "1.IH"[OF True ne keys_listed_evict_tail[OF "1.prems" ne]] True ne
    show ?thesis by (subst evict_lru.simps) auto
  next
    case False
    then show ?thesis using "1.prems" by (subst evict_lru.simps) auto
  qed
qed

lemma evict_size_ok:
  "keys_listed c \<Longrightarrow> size_c c \<ge> 1 \<Longrightarrow>
    \<exists>c'. evict_size c = Inr c' \<and> keys_listed c' \<and> (bytes c' \<le> byte_capacity c' \<or> size_c c' = 1)
      \<and> policy c' = policy c \<and> value_to_bytes c' = value_to_bytes c
      \<and> lru_capacity c' = lru_capacity c \<and> byte_capacity c' = byte_capacity c"
proof (induction c rule: evict_size.induct)
  case (1 c)
  show ?case
  proof (cases "bytes c > byte_capacity c \<and> size_c c > 1")
    case True
    with size_le_length[OF "1.prems"(1)] have ne: "lru_list c \<noteq> []" by auto
    have "size_c (evict_tail c) \<ge> 1" using size_evict_tail_ge[OF "1.prems"(1)] True by linarith
    from "1.IH"[OF True ne keys_listed_evict_tail[OF "1.prems"(1) ne] this] True ne
    show ?thesis by (subst evict_size.simps) auto
  next
    case False
    then show ?thesis using "1.prems" by (subst evict_size.simps) (auto simp: not_less)
  qed
qed


lemma Insert_ok:
  assumes "keys_listed c"
  shows "case Insert c k v of
           Inr c' \<Rightarrow> keys_listed c' \<and> capacity_ok c' \<and> policy c' = policy c
                     \<and> value_to_bytes c' = value_to_bytes c
                     \<and> lru_capacity c' = lru_capacity c \<and> byte_capacity c' = byte_capacity c
         | Inl e \<Rightarrow> policy c = kSize \<and> value_to_bytes c = None"
proof -
  define c3 where "c3 = (let node = next_node c;
          c1 = c\<lparr>lru_list := (node, k) # lru_list c, next_node := Suc node\<rparr>;
          c2 = c1\<lparr>key_to_value := (key_to_value c1)(k \<mapsto> (v, node))\<rparr>
      in (case value_to_bytes c2 of
                  None \<Rightarrow> c2
                | Some f \<Rightarrow> c2\<lparr>total_bytes := total_bytes c2 + f v\<rparr>))"
  have ins: "Insert c k v = evict_if_necessary c3"
    by (simp add: Insert_def c3_def Let_def)
  have kl: "keys_listed c3"
    using assms by (auto simp: keys_listed_def c3_def Let_def split: option.splits)
  have pol: "policy c3 = policy c" "value_to_bytes c3 = value_to_bytes c"
    "lru_capacity c3 = lru_capacity c" "byte_capacity c3 = byte_capacity c"
    by (simp_all add: c3_def Let_def split: option.splits)
  have "k \<in> dom (key_to_value c3)"
    by (simp add: c3_def Let_def split: option.splits)
  then have "card (dom (key_to_value c3)) \<noteq> 0"
    using finite_dom_listed[OF kl] by auto
  then have sz: "size_c c3 \<ge> 1" by (simp add: size_c_def)
  show ?thesis
  proof (cases "policy c")
    case kLRU
    from evict_lru_ok[OF kl] obtain c' where "evict_lru c3 = Inr c'" "keys_listed c'"
      "size_c c' \<le> lru_capacity c'" "policy c' = policy c3" "value_to_bytes c' = value_to_bytes c3"
      "lru_capacity c' = lru_capacity c3" "byte_capacity c' = byte_capacity c3"
      by blast
    then show ?thesis using kLRU pol
      by (simp add: ins evict_if_necessary_def capacity_ok_def)
  next
    case kSize
    show ?thesis
    proof (cases "value_to_bytes c")
      case None
      then show ?thesis using kSize pol by (simp add: ins evict_if_necessary_def)
    next
      case (Some f)
      from evict_size_ok[OF kl sz] obtain c' where "evict_size c3 = Inr c'" "keys_listed c'"
        "bytes c' \<le> byte_capacity c' \<or> size_c c' = 1" "policy c' = policy c3"
        "value_to_bytes c' = value_to_bytes c3"
        "lru_capacity c' = lru_capacity c3" "byte_capacity c' = byte_capacity c3"
        by blast
      then show ?thesis using kSize pol Some
        by (simp add: ins evict_if_necessary_def capacity_ok_def)
    qed
  qed
qed

lemma keys_listed_Cache_new: "Cache_new pol l b cb vtb = Inr c \<Longrightarrow> keys_listed c"
  by (auto simp: Cache_new_def keys_listed_def split: if_splits)

text \<open>\<open>Insert\<close> and \<open>Get\<close> keep the node identities distinct, and \<open>Get\<close> keeps the keys listed.\<close>

lemma nodes_ok_evict_tail: "nodes_ok c \<Longrightarrow> nodes_ok (evict_tail c)"
proof -
  assume ok: "nodes_ok c"
  have l: "lru_list (evict_tail c) = butlast (lru_list c)"
    and n: "next_node (evict_tail c) = next_node c"
    by (simp_all add: evict_tail_def Let_def)
  from ok have "distinct (butlast (map fst (lru_list c)))"
    by (simp only: nodes_ok_def distinct_butlast)
  then have "distinct (map fst (butlast (lru_list c)))" by (simp only: map_butlast)
  moreover have "\<forall>n \<in> set (butlast (lru_list c)). fst n < next_node c"
    using ok by (meson in_set_butlastD nodes_ok_def)
  ultimately show ?thesis by (simp only: nodes_ok_def l n)
qed

lemma evict_lru_nodes_ok: "evict_lru c = Inr c' \<Longrightarrow> nodes_ok c \<Longrightarrow> nodes_ok c'"
proof (induction c rule: evict_lru.induct)
  case (1 c)
  have eq: "evict_lru c =
     (if size_c c > lru_capacity c then
        (if lru_list c = [] then Inl AssertionFailed else evict_lru (evict_tail c))
      else Inr c)" by (rule evict_lru.simps)
  show ?case
  proof (cases "size_c c > lru_capacity c")
    case over: True
    show ?thesis
    proof (cases "lru_list c = []")
      case True
      with over eq "1.prems"(1) show ?thesis by simp
    next
      case False
      with over eq "1.prems"(1) have "evict_lru (evict_tail c) = Inr c'" by simp
      from "1.IH"[OF over False this nodes_ok_evict_tail[OF "1.prems"(2)]] show ?thesis .
    qed
  next
    case False
    with eq "1.prems" show ?thesis by simp
  qed
qed

lemma evict_size_nodes_ok: "evict_size c = Inr c' \<Longrightarrow> nodes_ok c \<Longrightarrow> nodes_ok c'"
proof (induction c rule: evict_size.induct)
  case (1 c)
  have eq: "evict_size c =
     (if bytes c > byte_capacity c \<and> size_c c > 1 then
        (if lru_list c = [] then Inl AssertionFailed else evict_size (evict_tail c))
      else Inr c)" by (rule evict_size.simps)
  show ?case
  proof (cases "bytes c > byte_capacity c \<and> size_c c > 1")
    case over: True
    show ?thesis
    proof (cases "lru_list c = []")
      case True
      with over eq "1.prems"(1) show ?thesis by simp
    next
      case False
      with over eq "1.prems"(1) have "evict_size (evict_tail c) = Inr c'" by simp
      from "1.IH"[OF over False this nodes_ok_evict_tail[OF "1.prems"(2)]] show ?thesis .
    qed
  next
    case False
    have "evict_size c = Inr c" by (subst eq) (rule if_not_P[OF False])
    with "1.prems" show ?thesis by simp
  qed
qed

lemma Insert_nodes_ok: "Insert c k v = Inr c' \<Longrightarrow> nodes_ok c \<Longrightarrow> nodes_ok c'"
proof -
  assume r: "Insert c k v = Inr c'" and ok: "nodes_ok c"
  define c3 where "c3 = (let node = next_node c;
          c1 = c\<lparr>lru_list := (node, k) # lru_list c, next_node := Suc node\<rparr>;
          c2 = c1\<lparr>key_to_value := (key_to_value c1)(k \<mapsto> (v, node))\<rparr>
      in (case value_to_bytes c2 of
                  None \<Rightarrow> c2
                | Some f \<Rightarrow> c2\<lparr>total_bytes := total_bytes c2 + f v\<rparr>))"
  have ins: "Insert c k v = evict_if_necessary c3"
    by (simp add: Insert_def c3_def Let_def)
  have "nodes_ok c3"
    using ok by (cases "value_to_bytes c") (auto simp: nodes_ok_def c3_def Let_def)
  from r ins have e: "evict_if_necessary c3 = Inr c'" by simp
  show ?thesis
  proof (cases "policy c3")
    case kLRU
    with e have "evict_lru c3 = Inr c'" by (simp add: evict_if_necessary_def)
    then show ?thesis using \<open>nodes_ok c3\<close> by (rule evict_lru_nodes_ok)
  next
    case kSize
    with e have "evict_size c3 = Inr c'"
      by (simp add: evict_if_necessary_def split: if_splits)
    then show ?thesis using \<open>nodes_ok c3\<close> by (rule evict_size_nodes_ok)
  qed
qed

lemma Get_keeps_invariants:
  assumes g: "Get c k = Inr (r, c')" and kl: "keys_listed c" and ok: "nodes_ok c"
  shows "keys_listed c' \<and> nodes_ok c'"
proof (cases "key_to_value c k")
  case None
  then have "Get c k = Inr (None, c)" by (simp add: Get_def)
  with g have "c' = c" by simp
  with kl ok show ?thesis by simp
next
  case (Some vi)
  obtain v it where vi: "vi = (v, it)" by (cases vi)
  show ?thesis
  proof (cases "find (\<lambda>n. fst n = it) (lru_list c)")
    case None
    with Some vi have "Get c k = Inl DanglingIterator" by (simp add: Get_def)
    with g show ?thesis by simp
  next
    case nd: (Some nd)
    have ndin: "nd \<in> set (lru_list c)" "fst nd = it"
      using nd unfolding find_Some_iff by auto
    show ?thesis
    proof (cases "it = fst (hd (lru_list c))")
      case True
      with Some vi nd have "Get c k = Inr (Some v, c)" by (simp add: Get_def Let_def)
      with g have "c' = c" by simp
      with kl ok show ?thesis by simp
    next
      case False
      define l' where "l' = nd # filter (\<lambda>n. fst n \<noteq> it) (lru_list c)"
      define m' where "m' = (key_to_value c)(k \<mapsto> (v, fst (hd (lru_list c))))"
      from Some vi nd False
      have "Get c k = Inr (Some v, c\<lparr>lru_list := l', key_to_value := m'\<rparr>)"
        by (simp add: Get_def Let_def l'_def m'_def)
      with g have c': "c' = c\<lparr>lru_list := l', key_to_value := m'\<rparr>" by simp
      from ok have d: "distinct (map fst (lru_list c))"
        and bd: "\<forall>n \<in> set (lru_list c). fst n < next_node c"
        by (simp_all add: nodes_ok_def)
      from d have inj: "inj_on fst (set (lru_list c))" by (simp add: distinct_map)
      have same: "n = nd" if "n \<in> set (lru_list c)" "fst n = it" for n
        using inj_onD[OF inj, of n nd] that ndin by simp
      have s: "set l' = set (lru_list c)"
      proof (intro set_eqI iffI)
        fix n assume "n \<in> set l'"
        then show "n \<in> set (lru_list c)" using ndin(1) by (auto simp: l'_def)
      next
        fix n assume n: "n \<in> set (lru_list c)"
        show "n \<in> set l'"
        proof (cases "fst n = it")
          case True
          with same[OF n] show ?thesis by (simp add: l'_def)
        next
          case False
          with n show ?thesis by (simp add: l'_def)
        qed
      qed
      have "distinct (map fst (filter (\<lambda>n. fst n \<noteq> it) (lru_list c)))"
        using d by (rule distinct_map_filter)
      moreover have "it \<notin> set (map fst (filter (\<lambda>n. fst n \<noteq> it) (lru_list c)))" by auto
      ultimately have dl: "distinct (map fst l')" by (simp add: l'_def ndin(2))
      have n1: "nodes_ok c'"
        unfolding nodes_ok_def using dl bd s by (simp add: c')
      from kl Some have "k \<in> snd ` set (lru_list c)"
        unfolding keys_listed_def by blast
      moreover have "dom m' = insert k (dom (key_to_value c))" by (simp add: m'_def)
      ultimately have "dom m' \<subseteq> snd ` set l'" using kl s unfolding keys_listed_def by blast
      then have "keys_listed c'" by (simp add: keys_listed_def c')
      with n1 show ?thesis by simp
    qed
  qed
qed

lemma Cache_new_nodes_ok: "Cache_new pol l b cb vtb = Inr c \<Longrightarrow> nodes_ok c"
  by (auto simp: Cache_new_def nodes_ok_def split: if_splits)

text \<open>The constructor returns a cache whose keys are listed, and the example caches
  are what the constructor and \<open>Insert\<close> return.\<close>

lemma Cache_new_examples:
  "Cache_new kLRU 2 0 True None = Inr lru2_cache"
  "Cache_new kSize 0 100 True (Some of_nat) = Inr bytes100_cache"
  by (simp_all add: Cache_new_def lru2_cache_def bytes100_cache_def)

lemma Insert_lru2_key1: "Insert lru2_cache key1 10 = Inr one_entry_cache"
  by (simp add: Insert_def Let_def evict_if_necessary_def evict_lru.simps size_c_def
      lru2_cache_def one_entry_cache_def)

text \<open>
  C2.  Property cache capacity invariant.  Starting from any cache whose map keys all
  occur in the MRU list (the cache returned by the constructor is one, and \<open>Insert\<close>
  keeps it so), every finite sequence of \<open>Insert\<close> calls returns from each call, and the
  cache after each call still has the policy, the entry capacity \<open>L\<close> and the byte
  capacity \<open>B\<close> it started with, and has \<open>size() \<le> L\<close> under the LRU policy and
  \<open>bytes() \<le> B \<or> size() = 1\<close> under the byte policy.  The only call that does not return
  is the one whose debug assertion fails: byte policy without a byte supplier.
\<close>

theorem Insert_capacity_invariant:
  assumes "keys_listed c"
  shows "case Insert_all c kvs of
           Inr cs \<Rightarrow> length cs = length kvs \<and>
             (\<forall>c' \<in> set cs. policy c' = policy c \<and> lru_capacity c' = lru_capacity c
                \<and> byte_capacity c' = byte_capacity c
                \<and> (case policy c of
                      kLRU \<Rightarrow> size_c c' \<le> lru_capacity c
                    | kSize \<Rightarrow> bytes c' \<le> byte_capacity c \<or> size_c c' = 1)
                \<and> capacity_ok c')
         | Inl e \<Rightarrow> policy c = kSize \<and> value_to_bytes c = None"
  using assms
proof (induction kvs arbitrary: c)
  case Nil
  then show ?case by simp
next
  case (Cons kv kvs)
  obtain k v where kv: "kv = (k, v)" by (cases kv)
  show ?case
  proof (cases "Insert c k v")
    case (Inl e)
    with Insert_ok[OF Cons.prems, of k v] show ?thesis by (simp add: kv)
  next
    case (Inr c')
    with Insert_ok[OF Cons.prems, of k v]
    have c': "keys_listed c'" "capacity_ok c'" "policy c' = policy c"
      "value_to_bytes c' = value_to_bytes c"
      "lru_capacity c' = lru_capacity c" "byte_capacity c' = byte_capacity c" by simp_all
    have hd: "case policy c of
                kLRU \<Rightarrow> size_c c' \<le> lru_capacity c
              | kSize \<Rightarrow> bytes c' \<le> byte_capacity c \<or> size_c c' = 1"
      using c'(2,3,5,6) by (cases "policy c") (simp_all add: capacity_ok_def)
    show ?thesis
    proof (cases "Insert_all c' kvs")
      case tl: (Inl e)
      with Cons.IH[OF c'(1)] have "policy c' = kSize \<and> value_to_bytes c' = None" by simp
      with c' tl Inr show ?thesis by (simp add: kv)
    next
      case tl: (Inr cs)
      with Cons.IH[OF c'(1)] have ih: "length cs = length kvs"
        "\<forall>d \<in> set cs. policy d = policy c' \<and> lru_capacity d = lru_capacity c'
                \<and> byte_capacity d = byte_capacity c'
                \<and> (case policy c' of
                      kLRU \<Rightarrow> size_c d \<le> lru_capacity c'
                    | kSize \<Rightarrow> bytes d \<le> byte_capacity c' \<or> size_c d = 1)
                \<and> capacity_ok d" by simp_all
      have "Insert_all c (kv # kvs) = Inr (c' # cs)" using Inr tl by (simp add: kv)
      moreover have "length (c' # cs) = length (kv # kvs)" using ih(1) by simp
      moreover have "\<forall>d \<in> set (c' # cs). policy d = policy c \<and> lru_capacity d = lru_capacity c
                \<and> byte_capacity d = byte_capacity c
                \<and> (case policy c of
                      kLRU \<Rightarrow> size_c d \<le> lru_capacity c
                    | kSize \<Rightarrow> bytes d \<le> byte_capacity c \<or> size_c d = 1)
                \<and> capacity_ok d"
      proof
        fix d assume "d \<in> set (c' # cs)"
        then consider "d = c'" | "d \<in> set cs" by auto
        then show "policy d = policy c \<and> lru_capacity d = lru_capacity c
                \<and> byte_capacity d = byte_capacity c
                \<and> (case policy c of
                      kLRU \<Rightarrow> size_c d \<le> lru_capacity c
                    | kSize \<Rightarrow> bytes d \<le> byte_capacity c \<or> size_c d = 1)
                \<and> capacity_ok d"
        proof cases
          case 1
          show ?thesis unfolding 1 using c'(2,3,5,6) hd by blast
        next
          case 2
          with ih(2) c'(3,5,6) show ?thesis by (cases "policy c") simp_all
        qed
      qed
      ultimately show ?thesis by (simp only: sum.case)
    qed
  qed
qed

theorem Insert_capacity_invariant_witness:
  "keys_listed lru2_cache \<and>
   (\<exists>cs. Insert_all lru2_cache [(key1, 10), (key2, 20), (key3, 30)] = Inr cs
         \<and> length cs = 3 \<and> (\<forall>c' \<in> set cs. lru_capacity c' = 2 \<and> size_c c' \<le> 2)) \<and>
   keys_listed bytes100_cache \<and>
   (\<exists>cs. Insert_all bytes100_cache [(key1, 60), (key2, 60), (key3, 60)] = Inr cs
         \<and> length cs = 3
         \<and> (\<forall>c' \<in> set cs. byte_capacity c' = 100 \<and> (bytes c' \<le> 100 \<or> size_c c' = 1)))"
proof -
  have a: "keys_listed lru2_cache"
    by (simp add: keys_listed_def lru2_cache_def)
  have b: "keys_listed bytes100_cache"
    by (simp add: keys_listed_def bytes100_cache_def)
  have pa: "policy lru2_cache = kLRU" "lru_capacity lru2_cache = 2"
    by (simp_all add: lru2_cache_def)
  have pb: "value_to_bytes bytes100_cache \<noteq> None" "policy bytes100_cache = kSize"
    "byte_capacity bytes100_cache = 100"
    by (simp_all add: bytes100_cache_def)
  show ?thesis
    using a b pa pb
      Insert_capacity_invariant [OF a, of "[(key1, 10), (key2, 20), (key3, 30)]"]
      Insert_capacity_invariant [OF b, of "[(key1, 60), (key2, 60), (key3, 60)]"]
    by (auto split: sum.splits)
qed

text \<open>
  C10.  \<open>Get\<close> of a key that is not in the cache returns empty and leaves the cache as
  it was: the map with every stored value, the MRU list with its order, the byte count
  and all other fields are those of the cache before the call.
\<close>

theorem Get_absent_unchanged:
  "\<not> Contains c key \<Longrightarrow> Get c key = Inr (None, c)"
  by (cases "key_to_value c key") (simp_all add: Contains_def Get_def)

theorem Get_absent_unchanged_witness:
  "\<not> Contains one_entry_cache key2 \<and> Get one_entry_cache key2 = Inr (None, one_entry_cache)"
proof -
  have a: "\<not> Contains one_entry_cache key2"
    by (simp add: Contains_def one_entry_cache_def key1_def key2_def)
  show ?thesis
    using a Get_absent_unchanged [OF a] by simp
qed

text \<open>
  Scenarios S5 and S6 of the specification.  With two entries of capacity: insert
  \<open>key1\<close>, insert \<open>key2\<close>, get \<open>key1\<close>, insert \<open>key3\<close>; then \<open>key2\<close> has been evicted and the
  callback has been called with it.  With 100 bytes of capacity and three values of 60
  bytes: after the third insert only \<open>key3\<close> is left and the cache holds 60 bytes.
\<close>

lemma scenario_S5:
  "(case Insert lru2_cache key1 10 of Inl e \<Rightarrow> False | Inr c1 \<Rightarrow>
    (case Insert c1 key2 20 of Inl e \<Rightarrow> False | Inr c2 \<Rightarrow>
    (case Get c2 key1 of Inl e \<Rightarrow> False | Inr (r, c3) \<Rightarrow>
    (case Insert c3 key3 30 of Inl e \<Rightarrow> False | Inr c4 \<Rightarrow>
       r = Some 10 \<and> Contains c4 key1 \<and> \<not> Contains c4 key2 \<and> Contains c4 key3
       \<and> evict_cb_calls c4 = [key2] \<and> size_c c4 = 2))))"
  by (simp add: Insert_def Let_def evict_if_necessary_def evict_lru.simps size_c_def
      evict_tail_def Get_def Contains_def lru2_cache_def key1_def key2_def key3_def)

lemma scenario_S6:
  "(case Insert bytes100_cache key1 60 of Inl e \<Rightarrow> False | Inr c1 \<Rightarrow>
    (case Insert c1 key2 60 of Inl e \<Rightarrow> False | Inr c2 \<Rightarrow>
    (case Insert c2 key3 60 of Inl e \<Rightarrow> False | Inr c3 \<Rightarrow>
       \<not> Contains c3 key1 \<and> \<not> Contains c3 key2 \<and> Contains c3 key3
       \<and> evict_cb_calls c3 = [key2, key1] \<and> bytes c3 = 60 \<and> size_c c3 = 1)))"
  by (simp add: Insert_def Let_def evict_if_necessary_def evict_size.simps size_c_def
      bytes_def evict_tail_def Contains_def bytes100_cache_def key1_def key2_def key3_def)

section \<open>FindAllEdges, FindEdge and Copy on concrete topologies\<close>

text \<open>
  Scenario S3 of the specification, on the view of scenario S1: the searches that take
  the linear scan, the edge ranges of nodes 0 and 3, and \<open>FindAllEdges\<close> on the node
  without edges.
\<close>

lemma scenario_S3:
  "FindEdge S1_sorted 0 2 = Inr 1 \<and> FindEdge S1_sorted 0 5 = Inr 2
   \<and> OutEdges S1_sorted 0 = Inr (0, 2) \<and> OutEdges S1_sorted 3 = Inr (3, 5)
   \<and> FindAllEdges S1_sorted 1 0 = Inr (2, 2)"
  by code_simp

lemma FindAllEdges_sorted_nonempty:
  assumes "has_edges_sorted_by v kSortedByDestID"
    and "OutEdges v src = Inr (e_beg, e_end)" and "e_beg \<noteq> e_end"
  shows "FindAllEdges v src dst = Inl AssertionFailed"
  using assms by (simp add: FindAllEdges_def)

text \<open>
  C1.  On a view tagged as sorted by destination, \<open>FindAllEdges\<close> of a node that has an
  out-edge fails its assertion: the asserted condition is the negation of
  \<open>has_edges_sorted_by(kSortedByDestID)\<close>.  Here the view is scenario S1, the node is 0
  (edges 0 and 1, to nodes 1 and 2) and the destination is 2.
\<close>

theorem FindAllEdges_S1_sorted_assertion_fails:
  "valid_csr S1_sorted \<and> sorted_by_dest S1_sorted
   \<and> has_edges_sorted_by S1_sorted kSortedByDestID
   \<and> OutEdges S1_sorted 0 = Inr (0, 2)
   \<and> FindAllEdges S1_sorted 0 2 = Inl AssertionFailed"
  by code_simp

text \<open>
  C6.  In the unsorted view \<open>unsorted65\<close> node 0 has 65 out-edges, edge 0 of which goes
  to node 1.  \<open>FindEdge\<close> logs its warning and then searches by bisection all the same:
  it returns 65, the end of node 0's range, although an edge to node 1 exists.
\<close>

theorem FindEdge_unsorted65_misses_edge:
  "valid_csr unsorted65 \<and> \<not> has_edges_sorted_by unsorted65 kSortedByDestID
   \<and> FindEdge_warns unsorted65 0
   \<and> OutEdges unsorted65 0 = Inr (0, 65)
   \<and> edges_to unsorted65 0 65 1 = [0]
   \<and> FindEdge unsorted65 0 1 = Inr 65"
  by code_simp

text \<open>
  C8.  \<open>Copy\<close> passes the edge property index array for both property index arguments
  of the constructor: the copy of \<open>two_cycle\<close> has the node property index array
  \<open>[1, 0]\<close>, which is the edge property index array of \<open>two_cycle\<close>, not its node
  property index array \<open>[0, 1]\<close>.
\<close>

theorem Copy_two_cycle_node_prop_indices:
  "valid_csr two_cycle \<and> node_prop_indices two_cycle = [0, 1]
   \<and> Copy two_cycle = Inr (two_cycle\<lparr>node_prop_indices := [1, 0]\<rparr>)"
  by code_simp

text \<open>
  C9.  In the view \<open>loops65\<close>, sorted by destination, node 0 has 65 out-edges, all to
  node 0, and the view has 65 edges.  Searching for destination 1, the bisection ends at
  edge index 65 and \<open>FindEdge\<close> then reads the destination of edge 65, which is not less
  than \<open>NumEdges()\<close>.
\<close>

theorem FindEdge_loops65_reads_out_of_bounds:
  "valid_csr loops65 \<and> sorted_by_dest loops65
   \<and> has_edges_sorted_by loops65 kSortedByDestID
   \<and> OutEdges loops65 0 = Inr (0, 65) \<and> NumEdges loops65 = 65
   \<and> lower_bound (dest_less_node loops65 1) 0 65 = Inr 65
   \<and> FindEdge loops65 0 1 = Inl OutOfBounds"
  by code_simp

section \<open>The condensed type map\<close>

lemma set_insert_props:
  "sorted s \<Longrightarrow> distinct s \<Longrightarrow>
   sorted (set_insert x s) \<and> distinct (set_insert x s) \<and> set (set_insert x s) = insert x (set s)"
  by (auto simp: set_insert_def sorted_insort distinct_insort set_insort_key)

lemma fold_set_insert:
  "sorted s \<Longrightarrow> distinct s \<Longrightarrow>
   sorted (fold set_insert xs s) \<and> distinct (fold set_insert xs s)
   \<and> set (fold set_insert xs s) = set xs \<union> set s"
  by (induction xs arbitrary: s) (auto simp: set_insert_props)


lemma types_of_simps [simp]:
  "types_of pg {} = {}"
  "types_of pg (A \<union> B) = types_of pg A \<union> types_of pg B"
  by (auto simp: types_of_def)

lemma edges_typed_D:
  "edges_typed pg \<Longrightarrow> e < NumEdges (topology pg) \<Longrightarrow> \<exists>ty. GetTypeOfEdgeFromTopoIndex pg e = Inr ty"
proof -
  assume "edges_typed pg" "e < NumEdges (topology pg)"
  then have "case GetTypeOfEdgeFromTopoIndex pg e of Inl err \<Rightarrow> False | Inr ty \<Rightarrow> True"
    by (simp add: edges_typed_def list_all_iff)
  then show ?thesis by (cases "GetTypeOfEdgeFromTopoIndex pg e") auto
qed

lemma collect_types_ok:
  assumes "edges_typed pg" "\<forall>e \<in> set es. e < NumEdges (topology pg)" "sorted s" "distinct s"
  shows "\<exists>s'. collect_types pg es s = Inr s' \<and> sorted s' \<and> distinct s'
           \<and> set s' = set s \<union> types_of pg (set es)"
  using assms(2-)
proof (induction es arbitrary: s)
  case Nil
  then show ?case by simp
next
  case (Cons e es)
  from edges_typed_D[OF assms(1), of e] Cons.prems obtain ty
    where ty: "GetTypeOfEdgeFromTopoIndex pg e = Inr ty" by auto
  have "types_of pg (set (e # es)) = insert ty (types_of pg (set es))"
    using ty by (auto simp: types_of_def)
  moreover from Cons.IH[of "set_insert ty s"] Cons.prems set_insert_props[of s ty]
  obtain s' where "collect_types pg es (set_insert ty s) = Inr s'" "sorted s'" "distinct s'"
    "set s' = insert ty (set s) \<union> types_of pg (set es)" by auto
  ultimately show ?case using ty by auto
qed

lemma edgeTypes_after_ok:
  assumes "edges_typed pg" "\<forall>e \<in> set (concat chunks). e < NumEdges (topology pg)"
  shows "\<exists>ss. edgeTypes_after pg chunks = Inr ss \<and> (\<forall>s \<in> set ss. sorted s \<and> distinct s)
           \<and> \<Union> (set ` set ss) = types_of pg (set (concat chunks))"
  using assms(2)
proof (induction chunks)
  case Nil
  then show ?case by simp
next
  case (Cons ch chs)
  from collect_types_ok[OF assms(1), of ch "[]"] Cons.prems
  obtain s where s: "collect_types pg ch [] = Inr s" "sorted s" "distinct s"
    "set s = types_of pg (set ch)" by auto
  from Cons.IH Cons.prems obtain ss where ss: "edgeTypes_after pg chs = Inr ss"
    "\<forall>s \<in> set ss. sorted s \<and> distinct s" "\<Union> (set ` set ss) = types_of pg (set (concat chs))"
    by auto
  show ?case using s ss by auto
qed

lemma merge_sets_aux:
  "sorted m \<Longrightarrow> distinct m \<Longrightarrow>
   sorted (fold (\<lambda>s mm. fold set_insert s mm) ss m)
   \<and> distinct (fold (\<lambda>s mm. fold set_insert s mm) ss m)
   \<and> set (fold (\<lambda>s mm. fold set_insert s mm) ss m) = \<Union> (set ` set ss) \<union> set m"
proof (induction ss arbitrary: m)
  case Nil
  then show ?case by simp
next
  case (Cons s ss)
  from fold_set_insert[OF Cons.prems, of s]
  have "sorted (fold set_insert s m)" "distinct (fold set_insert s m)"
    "set (fold set_insert s m) = set s \<union> set m" by auto
  with Cons.IH[of "fold set_insert s m"] show ?case by auto
qed

lemma merge_sets_ok:
  "sorted (merge_sets ss) \<and> distinct (merge_sets ss) \<and> set (merge_sets ss) = \<Union> (set ` set ss)"
  using merge_sets_aux[of "[]" ss] by (simp add: merge_sets_def)

lemma fold_assign_step:
  "distinct ts \<Longrightarrow> fold assign_step ts (m, v, n) = (m', v', n') \<Longrightarrow>
   v' = v @ ts \<and> (\<forall>i < length ts. m' (ts ! i) = Some (n + of_nat i))
   \<and> (\<forall>x. x \<notin> set ts \<longrightarrow> m' x = m x)"
proof (induction ts arbitrary: m v n)
  case Nil
  then show ?case by simp
next
  case (Cons t ts)
  from Cons.prems have d: "distinct ts" "t \<notin> set ts" by auto
  have step: "assign_step t (m, v, n) = (m(t \<mapsto> n), v @ [t], n + 1)"
    by (simp add: assign_step_def)
  from Cons.prems(2) have f: "fold assign_step ts (m(t \<mapsto> n), v @ [t], n + 1) = (m', v', n')"
    by (simp add: step)
  from Cons.IH[OF d(1) f] have ih: "v' = (v @ [t]) @ ts"
    "\<forall>i < length ts. m' (ts ! i) = Some (n + 1 + of_nat i)"
    "\<forall>x. x \<notin> set ts \<longrightarrow> m' x = (m(t \<mapsto> n)) x" by auto
  have "m' ((t # ts) ! i) = Some (n + of_nat i)" if "i < length (t # ts)" for i
  proof (cases i)
    case 0
    then show ?thesis using ih(3) d(2) by simp
  next
    case (Suc j)
    then show ?thesis using ih(2) that by (simp add: add.assoc add.commute)
  qed
  moreover have "\<forall>x. x \<notin> set (t # ts) \<longrightarrow> m' x = m x" using ih(3) by auto
  ultimately show ?case using ih(1) by auto
qed

lemma distinct_types_length: "distinct (ts :: EntityTypeID list) \<Longrightarrow> length ts \<le> 65536"
proof -
  assume "distinct ts"
  then have "length ts = card (set ts)" by (simp add: distinct_card)
  also have "\<dots> \<le> card (UNIV :: EntityTypeID set)" by (rule card_mono) auto
  also have "\<dots> = 65536" by (simp add: card_word)
  finally show ?thesis .
qed


text \<open>
  C7.  Condensed type map bijection.  For every property graph whose edges all have a
  type, and every distribution of the edges over the threads of the \<open>do_all\<close>,
  \<open>MakeFromEdgeTypes\<close> returns a map in which every edge type \<open>X\<close> present among the
  edges has an index \<open>i\<close> with \<open>index_to_type[i] = X\<close>; the number \<open>T\<close> of dense indices
  is the number of distinct present types and the indices assigned are exactly
  \<open>0, \<dots>, T - 1\<close>.
\<close>

theorem MakeFromEdgeTypes_bijection:
  assumes "edges_typed pg" and "do_all_edges pg chunks"
  shows "\<exists>m. MakeFromEdgeTypes pg chunks = Inr m
           \<and> (\<forall>X \<in> present_edge_types pg.
                 \<exists>i. type_to_index_map m X = Some i \<and> unat i < num_unique_types m
                     \<and> index_to_type_map m ! unat i = X)
           \<and> num_unique_types m = card (present_edge_types pg)
           \<and> unat ` ran (type_to_index_map m) = {0..<card (present_edge_types pg)}"
proof -
  let ?E = "NumEdges (topology pg)"
  have cover: "set (concat chunks) = {0..<?E}"
    using assms(2) unfolding do_all_edges_def by (metis set_sort set_upt)
  have present: "present_edge_types pg = types_of pg {0..<?E}"
    by (auto simp: present_edge_types_def types_of_def split: sum.splits)
  have "\<forall>e \<in> set (concat chunks). e < ?E"
    unfolding cover by simp
  from edgeTypes_after_ok[OF assms(1) this]
  obtain ss where ss: "edgeTypes_after pg chunks = Inr ss"
    "\<Union> (set ` set ss) = types_of pg {0..<?E}" unfolding cover by blast
  define ts where "ts = merge_sets ss"
  have ts: "sorted ts" "distinct ts" "set ts = present_edge_types pg"
    using merge_sets_ok[of ss] ss(2) present by (simp_all add: ts_def)
  obtain m v n where fa: "fold assign_step ts (Map.empty, [], 0) = (m, v, n)"
    by (cases "fold assign_step ts (Map.empty, [], 0)") auto
  from fold_assign_step[OF ts(2) fa]
  have v: "v = ts" and mi: "\<forall>i < length ts. m (ts ! i) = Some (of_nat i)"
    and mo: "\<forall>x. x \<notin> set ts \<longrightarrow> m x = None" by auto
  have len: "length ts \<le> 65536" by (rule distinct_types_length[OF ts(2)])
  have un: "unat (of_nat i :: 32 word) = i" if "i < length ts" for i
    using that len by (simp add: unat_of_nat)
  let ?m = "\<lparr>type_to_index_map = m, index_to_type_map = v\<rparr>"
  have res: "MakeFromEdgeTypes pg chunks = Inr ?m"
    by (simp add: MakeFromEdgeTypes_def ss(1) fa flip: ts_def)
  have card: "card (present_edge_types pg) = length ts"
    using ts(2,3) by (metis distinct_card)
  have a: "\<exists>i. m X = Some i \<and> unat i < length ts \<and> ts ! unat i = X"
    if "X \<in> present_edge_types pg" for X
  proof -
    from that ts(3) have "X \<in> set ts" by simp
    then obtain j where j: "j < length ts" "ts ! j = X"
      by (auto simp: in_set_conv_nth)
    then show ?thesis using mi un by auto
  qed
  have ran: "ran m = (\<lambda>i. of_nat i) ` {0..<length ts}"
  proof (intro set_eqI iffI)
    fix w assume "w \<in> ran m"
    then obtain x where x: "m x = Some w" by (auto simp: ran_def)
    with mo have "x \<in> set ts" by force
    then obtain j where "j < length ts" "ts ! j = x" by (auto simp: in_set_conv_nth)
    with mi x show "w \<in> (\<lambda>i. of_nat i) ` {0..<length ts}" by auto
  next
    fix w :: "32 word" assume "w \<in> (\<lambda>i. of_nat i) ` {0..<length ts}"
    then obtain j where "j < length ts" "w = of_nat j" by auto
    with mi show "w \<in> ran m" by (auto simp: ran_def)
  qed
  have "unat ` ran m = {0..<length ts}"
    unfolding ran image_image using un by (auto simp: image_iff)
  then show ?thesis
    using res a card v by (auto simp: num_unique_types_def)
qed

theorem MakeFromEdgeTypes_bijection_witness:
  "edges_typed S1_graph \<and> do_all_edges S1_graph [[0, 3], [4, 1, 2]] \<and>
   (\<exists>m. MakeFromEdgeTypes S1_graph [[0, 3], [4, 1, 2]] = Inr m
      \<and> (\<forall>X \<in> present_edge_types S1_graph.
            \<exists>i. type_to_index_map m X = Some i \<and> unat i < num_unique_types m
                \<and> index_to_type_map m ! unat i = X)
      \<and> num_unique_types m = card (present_edge_types S1_graph)
      \<and> unat ` ran (type_to_index_map m) = {0..<card (present_edge_types S1_graph)})"
proof -
  have a: "edges_typed S1_graph"
    by code_simp
  have b: "do_all_edges S1_graph [[0, 3], [4, 1, 2]]"
    by code_simp
  show ?thesis
    using a b MakeFromEdgeTypes_bijection [OF a b] by simp
qed


text \<open>The dense vector that \<open>MakeFromEdgeTypes\<close> builds is strictly ascending.\<close>

lemma MakeFromEdgeTypes_strictly_ascending:
  assumes "MakeFromEdgeTypes pg chunks = Inr m"
  shows "strictly_ascending m"
proof -
  from assms obtain ss where ss: "edgeTypes_after pg chunks = Inr ss"
    by (auto simp: MakeFromEdgeTypes_def split: sum.splits)
  obtain mm v n where fa: "fold assign_step (merge_sets ss) (Map.empty, [], 0) = (mm, v, n)"
    by (cases "fold assign_step (merge_sets ss) (Map.empty, [], 0)") auto
  from merge_sets_ok[of ss] have d: "sorted (merge_sets ss)" "distinct (merge_sets ss)"
    by simp_all
  from fold_assign_step[OF d(2) fa] have "v = merge_sets ss" by simp
  moreover from assms ss fa have "index_to_type_map m = v"
    by (auto simp: MakeFromEdgeTypes_def)
  ultimately show ?thesis using d by (simp add: strictly_ascending_def)
qed

section \<open>The per-type adjacency table\<close>

lemma slot_unique:
  fixes n :: nat
  assumes "t < T" "t' < T" "n * T + t = n' * T + t'"
  shows "n = n' \<and> t = t'"
proof -
  have "(n * T + t) div T = n" "(n' * T + t') div T = n'" using assms(1,2) by simp_all
  with assms(3) have "n = n'" by simp
  with assms(3) show ?thesis by simp
qed

lemma sorted_nth_le_mem:
  fixes idx :: "('a::linorder) list"
  assumes "sorted idx" "distinct idx" "i < length idx" "c \<in> set idx" "idx ! i < c"
  shows "\<exists>j. i < j \<and> j < length idx \<and> idx ! j = c"
proof -
  from assms(4) obtain j where j: "j < length idx" "idx ! j = c" by (auto simp: in_set_conv_nth)
  have "i < j"
  proof (rule ccontr)
    assume "\<not> i < j"
    then have "j \<le> i" by simp
    with assms(1,3) have "idx ! j \<le> idx ! i" by (simp add: sorted_nth_mono)
    with j assms(5) show False by simp
  qed
  with j show ?thesis by auto
qed

lemma skip_types_ok:
  assumes ns: "node_sorted tyf idx b e_end" and idx: "idx = index_to_type_map m"
    and e: "b \<le> e" "e < e_end"
    and len: "offset + length idx \<le> length adj"
    and i: "i < length idx"
    and I1: "\<forall>t<i. boundary tyf b e_end (idx ! t) (adj ! (offset + t))"
    and I2: "\<forall>x \<in> {b..<e}. tyf x \<le> idx ! i"
    and I3: "idx ! i \<le> tyf e"
  shows "\<exists>i' adj'. skip_types m (tyf e) e offset i adj = Inr (i', adj') \<and> i' < length idx
           \<and> idx ! i' = tyf e \<and> length adj' = length adj
           \<and> (\<forall>t<i'. boundary tyf b e_end (idx ! t) (adj' ! (offset + t)))
           \<and> (\<forall>k. k < offset \<or> offset + length idx \<le> k \<longrightarrow> adj' ! k = adj ! k)"
  using len i I1 I2 I3
proof (induction "length idx - i" arbitrary: i adj)
  case 0
  then show ?case by simp
next
  case (Suc d)
  have gt: "GetType m i = Inr (idx ! i)" using Suc.prems(2) by (simp add: GetType_def rd_def idx)
  show ?case
  proof (cases "tyf e = idx ! i")
    case True
    then show ?thesis using gt Suc.prems by (subst skip_types.simps) simp
  next
    case False
    with Suc.prems(5) have lt: "idx ! i < tyf e" by simp
    from ns e have mem: "tyf e \<in> set idx" by (simp add: node_sorted_def)
    from ns have si: "sorted idx" "distinct idx" by (simp_all add: node_sorted_def)
    from sorted_nth_le_mem[OF si Suc.prems(2) mem lt]
    obtain j where j: "i < j" "j < length idx" "idx ! j = tyf e" by auto
    then have i1: "i + 1 < length idx" by simp
    define adj' where "adj' = adj[offset + i := e]"
    have w: "wr adj (offset + i) e = Inr adj'"
      using Suc.prems(1,2) by (simp add: wr_def adj'_def)
    have bnd: "boundary tyf b e_end (idx ! i) e"
      unfolding boundary_def
    proof (intro conjI ballI)
      show "b \<le> e" "e \<le> e_end" using e by simp_all
      show "tyf x \<le> idx ! i" if "x \<in> {b..<e}" for x using Suc.prems(4) that by simp
      show "idx ! i < tyf x" if "x \<in> {e..<e_end}" for x
      proof -
        from ns e that have "tyf e \<le> tyf x" by (simp add: node_sorted_def)
        with lt show ?thesis by simp
      qed
    qed
    have le1: "idx ! i \<le> idx ! (i + 1)" using si(1) i1 by (simp add: sorted_nth_mono)
    have "Suc d = length idx - i" by fact
    then have d: "d = length idx - (i + 1)" by simp
    have l': "offset + length idx \<le> length adj'" using Suc.prems(1) by (simp add: adj'_def)
    have I1': "\<forall>t<i + 1. boundary tyf b e_end (idx ! t) (adj' ! (offset + t))"
    proof (intro allI impI)
      fix t assume "t < i + 1"
      then consider "t < i" | "t = i" by linarith
      then show "boundary tyf b e_end (idx ! t) (adj' ! (offset + t))"
      proof cases
        case 1
        then show ?thesis using Suc.prems(3) by (simp add: adj'_def)
      next
        case 2
        then show ?thesis using bnd Suc.prems(1,2) by (simp add: adj'_def)
      qed
    qed
    have I2': "\<forall>x \<in> {b..<e}. tyf x \<le> idx ! (i + 1)"
      using Suc.prems(4) le1 by auto
    have I3': "idx ! (i + 1) \<le> tyf e"
      using j si(1) by (metis Suc_eq_plus1 Suc_leI sorted_nth_mono)
    from Suc.hyps(1)[OF d l' i1 I1' I2' I3']
    obtain i' adj'' where r: "skip_types m (tyf e) e offset (i + 1) adj' = Inr (i', adj'')"
      "i' < length idx" "idx ! i' = tyf e" "length adj'' = length adj'"
      "\<forall>t<i'. boundary tyf b e_end (idx ! t) (adj'' ! (offset + t))"
      "\<forall>k. k < offset \<or> offset + length idx \<le> k \<longrightarrow> adj'' ! k = adj' ! k" by blast
    have un: "\<forall>k. k < offset \<or> offset + length idx \<le> k \<longrightarrow> adj'' ! k = adj ! k"
      using r(6) Suc.prems(2) by (auto simp: adj'_def)
    have "skip_types m (tyf e) e offset i adj = Inr (i', adj'')"
      using gt False w i1 r(1) by (subst skip_types.simps) (simp add: num_unique_types_def idx)
    then show ?thesis using r un by (auto simp: adj'_def)
  qed
qed


lemma walk_edges_ok:
  assumes ns: "node_sorted tyf idx b e_end" and idx: "idx = index_to_type_map m"
    and ty: "\<forall>x \<in> {b..<e_end}. edge_type pg v x = Inr (tyf x)"
    and e: "b \<le> e" "e \<le> e_end"
    and len: "offset + length idx \<le> length adj"
    and i: "i < length idx"
    and I1: "\<forall>t<i. boundary tyf b e_end (idx ! t) (adj ! (offset + t))"
    and I2: "\<forall>x \<in> {b..<e}. tyf x \<le> idx ! i"
    and I3: "e < e_end \<longrightarrow> idx ! i \<le> tyf e"
  shows "\<exists>i' adj'. walk_edges pg m v offset [e..<e_end] i adj = Inr (i', adj') \<and> i' < length idx
           \<and> length adj' = length adj
           \<and> (\<forall>t<i'. boundary tyf b e_end (idx ! t) (adj' ! (offset + t)))
           \<and> (\<forall>x \<in> {b..<e_end}. tyf x \<le> idx ! i')
           \<and> (\<forall>k. k < offset \<or> offset + length idx \<le> k \<longrightarrow> adj' ! k = adj ! k)"
  using e len i I1 I2 I3
proof (induction "e_end - e" arbitrary: e i adj)
  case 0
  then have "e = e_end" by simp
  then show ?case using 0 by simp
next
  case (Suc d)
  then have lt: "e < e_end" by simp
  then have up: "[e..<e_end] = e # [Suc e..<e_end]" by (simp add: upt_conv_Cons)
  have et: "edge_type pg v e = Inr (tyf e)" using ty Suc.prems(1) lt by simp
  from skip_types_ok[OF ns idx Suc.prems(1) lt Suc.prems(3,4,5,6)] Suc.prems(7) lt
  obtain i' adj' where r: "skip_types m (tyf e) e offset i adj = Inr (i', adj')"
    "i' < length idx" "idx ! i' = tyf e" "length adj' = length adj"
    "\<forall>t<i'. boundary tyf b e_end (idx ! t) (adj' ! (offset + t))"
    "\<forall>k. k < offset \<or> offset + length idx \<le> k \<longrightarrow> adj' ! k = adj ! k" by blast
  have d: "d = e_end - Suc e" using Suc.hyps(2) by simp
  have I2': "\<forall>x \<in> {b..<Suc e}. tyf x \<le> idx ! i'"
  proof
    fix x assume "x \<in> {b..<Suc e}"
    then have "x \<in> {b..<e_end}" "e \<in> {x..<e_end}" using lt by auto
    with ns have "tyf x \<le> tyf e" by (simp add: node_sorted_def)
    then show "tyf x \<le> idx ! i'" by (simp add: r(3))
  qed
  have I3': "Suc e < e_end \<longrightarrow> idx ! i' \<le> tyf (Suc e)"
  proof
    assume "Suc e < e_end"
    then have "e \<in> {b..<e_end}" "Suc e \<in> {e..<e_end}" using Suc.prems(1) by auto
    with ns show "idx ! i' \<le> tyf (Suc e)" by (simp add: node_sorted_def r(3))
  qed
  have l': "offset + length idx \<le> length adj'" using Suc.prems(3) r(4) by simp
  have b': "b \<le> Suc e" "Suc e \<le> e_end" using Suc.prems(1) lt by simp_all
  from Suc.hyps(1)[OF d b' l' r(2) r(5) I2' I3']
  obtain i'' adj'' where r2: "walk_edges pg m v offset [Suc e..<e_end] i' adj' = Inr (i'', adj'')"
    "i'' < length idx" "length adj'' = length adj'"
    "\<forall>t<i''. boundary tyf b e_end (idx ! t) (adj'' ! (offset + t))"
    "\<forall>x \<in> {b..<e_end}. tyf x \<le> idx ! i''"
    "\<forall>k. k < offset \<or> offset + length idx \<le> k \<longrightarrow> adj'' ! k = adj' ! k" by blast
  have "walk_edges pg m v offset [e..<e_end] i adj = Inr (i'', adj'')"
    by (simp add: up et r(1) r2(1))
  then show ?case using r2 r(4,6) by auto
qed

lemma fill_rest_ok:
  assumes ns: "node_sorted tyf idx b e_end" and idx: "idx = index_to_type_map m"
    and len: "offset + length idx \<le> length adj"
    and i: "i \<le> length idx"
    and I1: "\<forall>t<i. boundary tyf b e_end (idx ! t) (adj ! (offset + t))"
    and I2: "i < length idx \<longrightarrow> (\<forall>x \<in> {b..<e_end}. tyf x \<le> idx ! i)"
  shows "\<exists>adj'. fill_rest m e_end offset i adj = Inr adj' \<and> length adj' = length adj
           \<and> (\<forall>t<length idx. boundary tyf b e_end (idx ! t) (adj' ! (offset + t)))
           \<and> (\<forall>k. k < offset \<or> offset + length idx \<le> k \<longrightarrow> adj' ! k = adj ! k)"
  using len i I1 I2
proof (induction "length idx - i" arbitrary: i adj)
  case 0
  then have "i = length idx" by simp
  then show ?case using 0 by (subst fill_rest.simps) (simp add: num_unique_types_def idx)
next
  case (Suc d)
  then have lt: "i < length idx" by simp
  from ns have si: "sorted idx" and be: "b \<le> e_end" by (simp_all add: node_sorted_def)
  define adj' where "adj' = adj[offset + i := e_end]"
  have w: "wr adj (offset + i) e_end = Inr adj'"
    using Suc.prems(1) lt by (simp add: wr_def adj'_def)
  have bnd: "boundary tyf b e_end (idx ! i) e_end"
    using Suc.prems(4) lt be by (simp add: boundary_def)
  have d: "d = length idx - (i + 1)" using Suc.hyps(2) by simp
  have l': "offset + length idx \<le> length adj'" using Suc.prems(1) by (simp add: adj'_def)
  have i1: "i + 1 \<le> length idx" using lt by simp
  have I1': "\<forall>t<i + 1. boundary tyf b e_end (idx ! t) (adj' ! (offset + t))"
  proof (intro allI impI)
    fix t assume "t < i + 1"
    then consider "t < i" | "t = i" by linarith
    then show "boundary tyf b e_end (idx ! t) (adj' ! (offset + t))"
    proof cases
      case 1
      then show ?thesis using Suc.prems(3) by (simp add: adj'_def)
    next
      case 2
      then show ?thesis using bnd Suc.prems(1) lt by (simp add: adj'_def)
    qed
  qed
  have I2': "i + 1 < length idx \<longrightarrow> (\<forall>x \<in> {b..<e_end}. tyf x \<le> idx ! (i + 1))"
  proof (intro impI ballI)
    fix x assume a: "i + 1 < length idx" "x \<in> {b..<e_end}"
    then have "idx ! i \<le> idx ! (i + 1)" using si by (simp add: sorted_nth_mono)
    moreover have "tyf x \<le> idx ! i" using Suc.prems(4) lt a(2) by simp
    ultimately show "tyf x \<le> idx ! (i + 1)" by simp
  qed
  from Suc.hyps(1)[OF d l' i1 I1' I2']
  obtain adj'' where r: "fill_rest m e_end offset (i + 1) adj' = Inr adj''"
    "length adj'' = length adj'"
    "\<forall>t<length idx. boundary tyf b e_end (idx ! t) (adj'' ! (offset + t))"
    "\<forall>k. k < offset \<or> offset + length idx \<le> k \<longrightarrow> adj'' ! k = adj' ! k" by blast
  have "fill_rest m e_end offset i adj = Inr adj''"
    using lt w r(1) by (subst fill_rest.simps) (simp add: num_unique_types_def idx)
  then show ?case using r lt by (auto simp: adj'_def)
qed

lemma per_node_index_ok:
  assumes ns: "node_sorted tyf idx b e_end" and idx: "idx = index_to_type_map m"
    and ty: "\<forall>x \<in> {b..<e_end}. edge_type pg v x = Inr (tyf x)"
    and oe: "OutEdges v n = Inr (b, e_end)"
    and ne: "idx \<noteq> []"
    and len: "n * length idx + length idx \<le> length adj"
  shows "\<exists>adj'. per_node_index pg m v n adj = Inr adj' \<and> length adj' = length adj
           \<and> (\<forall>t<length idx. boundary tyf b e_end (idx ! t) (adj' ! (n * length idx + t)))
           \<and> (\<forall>k. k < n * length idx \<or> n * length idx + length idx \<le> k \<longrightarrow> adj' ! k = adj ! k)"
proof -
  let ?off = "n * length idx"
  from ns have si: "sorted idx" and be: "b \<le> e_end" by (simp_all add: node_sorted_def)
  have i0: "0 < length idx" using ne by simp
  have I3: "b < e_end \<longrightarrow> idx ! 0 \<le> tyf b"
  proof
    assume "b < e_end"
    with ns have "tyf b \<in> set idx" by (simp add: node_sorted_def)
    then obtain j where "j < length idx" "idx ! j = tyf b" by (auto simp: in_set_conv_nth)
    with si show "idx ! 0 \<le> tyf b" by (metis le0 sorted_nth_mono)
  qed
  from walk_edges_ok[OF ns idx ty order_refl be len i0 _ _ I3]
  obtain i' adj' where r: "walk_edges pg m v ?off [b..<e_end] 0 adj = Inr (i', adj')"
    "i' < length idx" "length adj' = length adj"
    "\<forall>t<i'. boundary tyf b e_end (idx ! t) (adj' ! (?off + t))"
    "\<forall>x \<in> {b..<e_end}. tyf x \<le> idx ! i'"
    "\<forall>k. k < ?off \<or> ?off + length idx \<le> k \<longrightarrow> adj' ! k = adj ! k" by auto
  have l': "?off + length idx \<le> length adj'" using len r(3) by simp
  from fill_rest_ok[OF ns idx l' less_imp_le[OF r(2)] r(4)] r(5)
  obtain adj'' where r2: "fill_rest m e_end ?off i' adj' = Inr adj''"
    "length adj'' = length adj'"
    "\<forall>t<length idx. boundary tyf b e_end (idx ! t) (adj'' ! (?off + t))"
    "\<forall>k. k < ?off \<or> ?off + length idx \<le> k \<longrightarrow> adj'' ! k = adj' ! k" by blast
  have "per_node_index pg m v n adj = Inr adj''"
    by (simp add: per_node_index_def oe num_unique_types_def r(1) r2(1) flip: idx)
  then show ?thesis using r2 r(3,6) by auto
qed


lemma slot_outside:
  fixes d :: nat
  assumes "d \<noteq> n" "t < T"
  shows "d * T + t < n * T \<or> n * T + T \<le> d * T + t"
proof (cases "d < n")
  case True
  then have "Suc d * T \<le> n * T" by (intro mult_le_mono1) simp
  then show ?thesis using assms(2) by simp
next
  case False
  with assms(1) have "Suc n * T \<le> d * T" by (intro mult_le_mono1) simp
  then show ?thesis by simp
qed

lemma slot_in_table:
  fixes n :: nat
  assumes "n < N" "t < T"
  shows "n * T + t < N * T"
proof -
  have "Suc n * T \<le> N * T" using assms(1) by (intro mult_le_mono1) simp
  then show ?thesis using assms(2) by simp
qed

lemma do_all_index_ok:
  assumes idx: "idx = index_to_type_map m" and ne: "idx \<noteq> []"
    and nodes: "\<forall>n \<in> set order \<union> D. OutEdges v n = Inr (bf n, ef n)
                 \<and> node_sorted tyf idx (bf n) (ef n)
                 \<and> (\<forall>x \<in> {bf n..<ef n}. edge_type pg v x = Inr (tyf x))
                 \<and> n * length idx + length idx \<le> length adj"
    and dn: "\<forall>d \<in> D. \<forall>t<length idx. boundary tyf (bf d) (ef d) (idx ! t) (adj ! (d * length idx + t))"
  shows "\<exists>adj'. do_all (per_node_index pg m v) order adj = Inr adj' \<and> length adj' = length adj
           \<and> (\<forall>d \<in> set order \<union> D. \<forall>t<length idx.
                 boundary tyf (bf d) (ef d) (idx ! t) (adj' ! (d * length idx + t)))"
  using nodes dn
proof (induction order arbitrary: adj D)
  case Nil
  then show ?case by simp
next
  case (Cons n ns)
  from Cons.prems(1) have n: "OutEdges v n = Inr (bf n, ef n)" "node_sorted tyf idx (bf n) (ef n)"
    "\<forall>x \<in> {bf n..<ef n}. edge_type pg v x = Inr (tyf x)"
    "n * length idx + length idx \<le> length adj" by simp_all
  from per_node_index_ok[OF n(2) idx n(3) n(1) ne n(4)]
  obtain adj' where r: "per_node_index pg m v n adj = Inr adj'" "length adj' = length adj"
    "\<forall>t<length idx. boundary tyf (bf n) (ef n) (idx ! t) (adj' ! (n * length idx + t))"
    "\<forall>k. k < n * length idx \<or> n * length idx + length idx \<le> k \<longrightarrow> adj' ! k = adj ! k"
    by blast
  have nodes': "\<forall>n' \<in> set ns \<union> insert n D. OutEdges v n' = Inr (bf n', ef n')
                 \<and> node_sorted tyf idx (bf n') (ef n')
                 \<and> (\<forall>x \<in> {bf n'..<ef n'}. edge_type pg v x = Inr (tyf x))
                 \<and> n' * length idx + length idx \<le> length adj'"
    using Cons.prems(1) r(2) by auto
  have dn': "\<forall>d \<in> insert n D. \<forall>t<length idx.
                 boundary tyf (bf d) (ef d) (idx ! t) (adj' ! (d * length idx + t))"
  proof (intro ballI allI impI)
    fix d t assume d: "d \<in> insert n D" and t: "t < length idx"
    show "boundary tyf (bf d) (ef d) (idx ! t) (adj' ! (d * length idx + t))"
    proof (cases "d = n")
      case True
      then show ?thesis using r(3) t by simp
    next
      case False
      with d have "d \<in> D" by simp
      moreover from slot_outside[OF False t]
      have "adj' ! (d * length idx + t) = adj ! (d * length idx + t)" using r(4) by auto
      ultimately show ?thesis using Cons.prems(2) t by simp
    qed
  qed
  from Cons.IH[OF nodes' dn']
  obtain adj'' where r2: "do_all (per_node_index pg m v) ns adj' = Inr adj''"
    "length adj'' = length adj'"
    "\<forall>d \<in> set ns \<union> insert n D. \<forall>t<length idx.
        boundary tyf (bf d) (ef d) (idx ! t) (adj'' ! (d * length idx + t))" by blast
  have "do_all (per_node_index pg m v) (n # ns) adj = Inr adj''"
    by (simp add: r(1) r2(1))
  then show ?case using r2 r(2) by auto
qed

lemma those_Some: "those xs = Some ys \<Longrightarrow> xs = map Some ys"
  by (induction xs arbitrary: ys) (auto split: option.splits)

lemma node_facts:
  assumes "sorted_by_edge_type pg v" "covers_edge_types m pg v" "strictly_ascending m"
    and "n < NumNodes v"
  shows "\<exists>b e. OutEdges v n = Inr (b, e)
           \<and> node_sorted (type_or_0 pg v) (index_to_type_map m) b e
           \<and> (\<forall>x \<in> {b..<e}. edge_type pg v x = Inr (type_or_0 pg v x))"
proof -
  have nn: "n \<in> set (Nodes v)" using assms(4) by (simp add: Nodes_def)
  from assms(1) nn obtain tys where tys: "node_edge_types pg v n = Some tys" "sorted tys"
    by (auto simp: sorted_by_edge_type_def list_all_iff split: option.splits)
  from assms(2) nn tys(1) have cov: "\<forall>ty \<in> set tys. ty \<in> set (index_to_type_map m)"
    by (auto simp: covers_edge_types_def list_all_iff split: option.splits)
  from tys(1) obtain b e where oe: "OutEdges v n = Inr (b, e)"
    and th: "those (map (\<lambda>e. case edge_type pg v e of Inl err \<Rightarrow> None | Inr ty \<Rightarrow> Some ty)
                   [b..<e]) = Some tys"
    by (auto simp: node_edge_types_def split: sum.splits)
  from oe have be: "b \<le> e"
    by (auto simp: OutEdges_def Let_def split: if_splits)
  from those_Some[OF th]
  have m: "map (\<lambda>e. case edge_type pg v e of Inl err \<Rightarrow> None | Inr ty \<Rightarrow> Some ty) [b..<e]
            = map Some tys" .
  then have l: "length tys = e - b" by (metis length_map length_upt)
  have ty: "edge_type pg v x = Inr (tys ! (x - b))" if "x \<in> {b..<e}" for x
  proof -
    from that have i: "x - b < e - b" "[b..<e] ! (x - b) = x" by auto
    from arg_cong[OF m, of "\<lambda>l. l ! (x - b)"] i l
    have "(case edge_type pg v x of Inl err \<Rightarrow> None | Inr ty \<Rightarrow> Some ty) = Some (tys ! (x - b))"
      by simp
    then show ?thesis by (cases "edge_type pg v x") auto
  qed
  then have t0: "type_or_0 pg v x = tys ! (x - b)" if "x \<in> {b..<e}" for x
    using that by (simp add: type_or_0_def)
  have "node_sorted (type_or_0 pg v) (index_to_type_map m) b e"
    unfolding node_sorted_def
  proof (intro conjI ballI)
    show "b \<le> e" by fact
    show "sorted (index_to_type_map m)" "distinct (index_to_type_map m)"
      using assms(3) by (simp_all add: strictly_ascending_def)
    show "type_or_0 pg v x \<in> set (index_to_type_map m)" if "x \<in> {b..<e}" for x
    proof -
      from that l have "tys ! (x - b) \<in> set tys" by (intro nth_mem) auto
      then show ?thesis using cov t0[OF that] by simp
    qed
    show "type_or_0 pg v x \<le> type_or_0 pg v y" if "x \<in> {b..<e}" "y \<in> {x..<e}" for x y
    proof -
      from that have y: "y \<in> {b..<e}" by auto
      from that l have "tys ! (x - b) \<le> tys ! (y - b)"
        by (intro sorted_nth_mono[OF tys(2)]) auto
      then show ?thesis using t0[OF that(1)] t0[OF y] by simp
    qed
  qed
  then show ?thesis using oe ty t0 by auto
qed


lemma no_edges_if_all_empty:
  assumes csr: "valid_csr v" and em: "\<forall>n<NumNodes v. \<exists>b. OutEdges v n = Inr (b, b)"
  shows "NumEdges v = 0"
proof (cases "adj_indices v = []")
  case True
  then show ?thesis using csr by (simp add: valid_csr_def NumEdges_def)
next
  case False
  have z: "n < NumNodes v \<Longrightarrow> adj_indices v ! n = 0" for n
  proof (induction n)
    case 0
    with em obtain b where "OutEdges v 0 = Inr (b, b)" by blast
    then show ?case using 0 by (auto simp: OutEdges_def Let_def split: if_splits)
  next
    case (Suc n)
    with em obtain b where "OutEdges v (Suc n) = Inr (b, b)" by blast
    then have "adj_indices v ! Suc n = adj_indices v ! n"
      using Suc.prems by (auto simp: OutEdges_def Let_def split: if_splits)
    then show ?case using Suc by simp
  qed
  have "last (adj_indices v) = adj_indices v ! (NumNodes v - 1)"
    using False by (simp add: last_conv_nth NumNodes_def)
  also have "\<dots> = 0" using False by (intro z) (simp add: NumNodes_def)
  finally show ?thesis using csr False by (simp add: valid_csr_def NumEdges_def)
qed

lemma typed_view_accessors:
  fixes e_topo :: EdgeShuffleTopology
  defines "v \<equiv> \<lambda>m adj. \<lparr>adj_indices = adj_indices e_topo, dests = dests e_topo,
                  edge_prop_indices = edge_prop_indices e_topo,
                  node_prop_indices = node_prop_indices e_topo,
                  tpose_state = tpose_state e_topo, edge_sort_state = edge_sort_state e_topo,
                  edge_type_index = m, per_type_adj_indices = adj\<rparr>"
  shows "OutEdges (v m adj) n = OutEdges e_topo n"
    and "edge_type pg (v m adj) x = edge_type pg e_topo x"
  by (simp_all add: v_def OutEdges_def NumNodes_def edge_type_def
      GetEdgePropertyIndexFromOutEdge_def NumEdges_def)

text \<open>
  C3.  Edge-type-aware adjacency correctness.  Let the view be a valid CSR tagged and
  sorted by edge type (the types of every node's out-edges ascend), let the condensed
  map have \<open>T\<close> strictly ascending types that include every type of the view's edges,
  and let the \<open>do_all\<close> run every node once, in any order.  Then \<open>MakeFrom\<close> returns an
  edge-type-aware topology that has the arrays and tags of the given view, the given
  condensed map and a table of \<open>NumNodes * T\<close> entries, in which, for every node \<open>n\<close> of
  the given view and type index \<open>t < T\<close>, the range \<open>OutEdges(n, t)\<close> read off the
  per-type adjacency table is exactly the set of out-edges of \<open>n\<close> in the given view whose
  type is the type at index \<open>t\<close>; the ranges of distinct type indices are disjoint, and
  the union of the ranges over all \<open>t < T\<close> is \<open>OutEdges(n)\<close> of the given view.
\<close>

theorem per_type_adjacency_correct:
  assumes csr: "valid_csr e_topo"
    and tag: "has_edges_sorted_by e_topo kSortedByEdgeType"
    and ne: "NumEdges e_topo = NumEdges (topology pg)"
    and srt: "sorted_by_edge_type pg e_topo"
    and cov: "covers_edge_types m pg e_topo"
    and asc: "strictly_ascending m"
    and ord: "do_all_nodes e_topo order"
  shows "\<exists>v. MakeFrom pg m e_topo order = Inr v \<and>
     adj_indices v = adj_indices e_topo \<and> dests v = dests e_topo \<and>
     edge_prop_indices v = edge_prop_indices e_topo \<and>
     node_prop_indices v = node_prop_indices e_topo \<and>
     tpose_state v = tpose_state e_topo \<and> edge_sort_state v = edge_sort_state e_topo \<and>
     edge_type_index v = m \<and>
     length (per_type_adj_indices v) = NumNodes e_topo * num_unique_types m \<and>
     (\<forall>n<NumNodes e_topo.
        (\<forall>t<num_unique_types m.
           (\<exists>r. OutEdges_of_type v n t = Inr r) \<and>
           range_set (OutEdges_of_type v n t) = edges_of_type pg m e_topo n t \<and>
           (\<forall>t'<num_unique_types m. t' \<noteq> t \<longrightarrow>
              range_set (OutEdges_of_type v n t) \<inter> range_set (OutEdges_of_type v n t') = {})) \<and>
        (\<Union>t<num_unique_types m. range_set (OutEdges_of_type v n t))
          = range_set (OutEdges e_topo n))"
proof -
  define idx where "idx = index_to_type_map m"
  define T where "T = length idx"
  define N where "N = NumNodes e_topo"
  define tyf where "tyf = type_or_0 pg e_topo"
  have Tm: "num_unique_types m = T" by (simp add: T_def idx_def num_unique_types_def)
  from asc have si: "sorted idx" "distinct idx" by (simp_all add: strictly_ascending_def idx_def)
  have "\<forall>n. \<exists>b e. n < N \<longrightarrow> OutEdges e_topo n = Inr (b, e) \<and> node_sorted tyf idx b e
           \<and> (\<forall>x \<in> {b..<e}. edge_type pg e_topo x = Inr (tyf x))"
    using node_facts[OF srt cov asc] unfolding N_def tyf_def idx_def by blast
  then obtain bf ef where nf: "\<And>n. n < N \<Longrightarrow> OutEdges e_topo n = Inr (bf n, ef n)
           \<and> node_sorted tyf idx (bf n) (ef n)
           \<and> (\<forall>x \<in> {bf n..<ef n}. edge_type pg e_topo x = Inr (tyf x))"
    by metis
  have so: "set order = {0..<N}"
    using ord unfolding do_all_nodes_def Nodes_def N_def by (metis set_sort set_upt)
  let ?v = "\<lambda>adj. \<lparr>adj_indices = adj_indices e_topo, dests = dests e_topo,
                  edge_prop_indices = edge_prop_indices e_topo,
                  node_prop_indices = node_prop_indices e_topo,
                  tpose_state = tpose_state e_topo, edge_sort_state = edge_sort_state e_topo,
                  edge_type_index = m, per_type_adj_indices = adj\<rparr>"
  have mf: "MakeFrom pg m e_topo order = Inr (?v adj)"
    if "CreatePerEdgeTypeAdjacencyIndex pg m e_topo order = Inr adj" for adj
    using tag ne that by (simp add: MakeFrom_def)
  show ?thesis
  proof (cases "N = 0 \<or> T = 0")
    case True
    have em: "\<forall>n<NumNodes e_topo. \<exists>b. OutEdges e_topo n = Inr (b, b)"
    proof (intro allI impI)
      fix n assume n: "n < NumNodes e_topo"
      with True have T0: "idx = []" by (simp add: N_def T_def)
      from nf[of n] n have "OutEdges e_topo n = Inr (bf n, ef n)"
        "node_sorted tyf idx (bf n) (ef n)" by (simp_all add: N_def)
      with T0 have "bf n = ef n"
        by (cases "bf n < ef n") (auto simp: node_sorted_def)
      then show "\<exists>b. OutEdges e_topo n = Inr (b, b)"
        using \<open>OutEdges e_topo n = Inr (bf n, ef n)\<close> by auto
    qed
    from no_edges_if_all_empty[OF csr em] have E0: "NumEdges e_topo = 0" .
    have "CreatePerEdgeTypeAdjacencyIndex pg m e_topo order = Inr []"
      using True E0 by (auto simp: CreatePerEdgeTypeAdjacencyIndex_def empty_topo_def N_def Tm)
    from mf[OF this] have r: "MakeFrom pg m e_topo order = Inr (?v [])" .
    have "T = 0 \<and> range_set (OutEdges e_topo n) = {}" if "n < NumNodes e_topo" for n
    proof -
      from em that obtain b where "OutEdges e_topo n = Inr (b, b)" by blast
      moreover have "T = 0" using True that by (auto simp: N_def)
      ultimately show ?thesis by (simp add: range_set_def)
    qed
    moreover have "NumNodes e_topo * T = 0" using True by (auto simp: N_def)
    ultimately show ?thesis using r by (simp add: Tm)
  next
    case False
    then have N0: "N \<noteq> 0" and ne0: "idx \<noteq> []" by (auto simp: T_def)
    have nodes: "\<forall>n \<in> set order \<union> {}. OutEdges e_topo n = Inr (bf n, ef n)
                 \<and> node_sorted tyf idx (bf n) (ef n)
                 \<and> (\<forall>x \<in> {bf n..<ef n}. edge_type pg e_topo x = Inr (tyf x))
                 \<and> n * length idx + length idx \<le> length (replicate (N * T) (0::nat))"
    proof
      fix n assume "n \<in> set order \<union> {}"
      then have n: "n < N" using so by simp
      then have "Suc n * T \<le> N * T" by (intro mult_le_mono1) simp
      then show "OutEdges e_topo n = Inr (bf n, ef n)
                 \<and> node_sorted tyf idx (bf n) (ef n)
                 \<and> (\<forall>x \<in> {bf n..<ef n}. edge_type pg e_topo x = Inr (tyf x))
                 \<and> n * length idx + length idx \<le> length (replicate (N * T) (0::nat))"
        using nf[OF n] by (simp add: T_def)
    qed
    from do_all_index_ok[OF idx_def ne0 nodes]
    obtain adj where adj: "do_all (per_node_index pg m e_topo) order (replicate (N * T) 0) = Inr adj"
      "length adj = N * T"
      "\<forall>d \<in> set order. \<forall>t<T. boundary tyf (bf d) (ef d) (idx ! t) (adj ! (d * T + t))"
      unfolding T_def by auto
    have "CreatePerEdgeTypeAdjacencyIndex pg m e_topo order = Inr adj"
      using False adj(1)
      by (simp add: CreatePerEdgeTypeAdjacencyIndex_def empty_topo_def Tm Let_def flip: N_def)
    from mf[OF this] have r: "MakeFrom pg m e_topo order = Inr (?v adj)" .
    define vv where "vv = ?v adj"
    have acc: "\<And>n. OutEdges vv n = OutEdges e_topo n"
      "\<And>x. edge_type pg vv x = edge_type pg e_topo x"
      "edge_type_index vv = m" "per_type_adj_indices vv = adj"
      unfolding vv_def by (simp_all add: typed_view_accessors)
    have main: "(\<forall>t<T.
           (\<exists>r. OutEdges_of_type vv n t = Inr r) \<and>
           range_set (OutEdges_of_type vv n t) = edges_of_type pg m e_topo n t \<and>
           (\<forall>t'<T. t' \<noteq> t \<longrightarrow>
              range_set (OutEdges_of_type vv n t) \<inter> range_set (OutEdges_of_type vv n t') = {})) \<and>
        (\<Union>t<T. range_set (OutEdges_of_type vv n t)) = range_set (OutEdges e_topo n)"
      if n: "n < N" for n
    proof -
      define b where "b = bf n"
      define e where "e = ef n"
      from nf[OF n] have oe: "OutEdges e_topo n = Inr (b, e)" and ns: "node_sorted tyf idx b e"
        and ty: "\<forall>x \<in> {b..<e}. edge_type pg e_topo x = Inr (tyf x)"
        by (simp_all add: b_def e_def)
      define p where "p = (\<lambda>t. adj ! (n * T + t))"
      define lo where "lo = (\<lambda>t. if t = 0 then b else p (t - 1))"
      define R where "R = (\<lambda>t. range_set (OutEdges_of_type vv n t))"
      have bd: "boundary tyf b e (idx ! t) (p t)" if "t < T" for t
        using adj(3) n so that by (simp add: p_def b_def e_def)
      have oet: "OutEdges_of_type vv n t = Inr (lo t, p t)" if "t < T" for t
      proof -
        have "n * T + t < N * T" by (rule slot_in_table[OF n that])
        moreover have "n * T + t - 1 < N * T" using calculation by simp
        moreover have "t \<noteq> 0 \<Longrightarrow> n * T + t - 1 = n * T + (t - 1)" by simp
        ultimately show ?thesis using that oe
          by (simp add: OutEdges_of_type_def Let_def Tm acc rd_def adj(2) lo_def p_def)
      qed
      have mem: "tyf x \<in> set idx" if "x \<in> {b..<e}" for x
        using ns that by (simp add: node_sorted_def)
      have chr: "{lo t..<p t} = {x \<in> {b..<e}. tyf x = idx ! t}" if t: "t < T" for t
      proof (intro set_eqI iffI)
        fix x assume x: "x \<in> {lo t..<p t}"
        from bd[OF t] have pb: "b \<le> p t" "p t \<le> e" "\<forall>x \<in> {b..<p t}. tyf x \<le> idx ! t"
          by (simp_all add: boundary_def)
        have lob: "b \<le> lo t"
        proof (cases "t = 0")
          case True then show ?thesis by (simp add: lo_def)
        next
          case False
          then have "t - 1 < T" using t by simp
          from bd[OF this] show ?thesis using False by (simp add: lo_def boundary_def)
        qed
        with x pb have xin: "x \<in> {b..<e}" "x \<in> {b..<p t}" by auto
        with pb have le: "tyf x \<le> idx ! t" by simp
        from mem[OF xin(1)] obtain j where j: "j < T" "idx ! j = tyf x"
          by (auto simp: in_set_conv_nth T_def)
        have "t \<le> j"
        proof (cases "t = 0")
          case True then show ?thesis by simp
        next
          case False
          then have t1: "t - 1 < T" using t by simp
          from x False have "x \<in> {p (t - 1)..<e}" using pb by (auto simp: lo_def)
          with bd[OF t1] have "idx ! (t - 1) < tyf x" by (simp add: boundary_def)
          then have lt: "idx ! (t - 1) < idx ! j" by (simp add: j)
          have "t - 1 < j"
          proof (rule ccontr)
            assume "\<not> t - 1 < j"
            then have "j \<le> t - 1" by simp
            then have "idx ! j \<le> idx ! (t - 1)"
              using si(1) t1 by (simp add: sorted_nth_mono T_def)
            with lt show False by simp
          qed
          then show ?thesis by simp
        qed
        then have "idx ! t \<le> idx ! j" using si(1) j(1) by (simp add: sorted_nth_mono T_def)
        with le j have "tyf x = idx ! t" by simp
        with xin show "x \<in> {x \<in> {b..<e}. tyf x = idx ! t}" by simp
      next
        fix x assume "x \<in> {x \<in> {b..<e}. tyf x = idx ! t}"
        then have x: "x \<in> {b..<e}" "tyf x = idx ! t" by simp_all
        have up: "x < p t"
        proof (rule ccontr)
          assume "\<not> x < p t"
          with x have "x \<in> {p t..<e}" by simp
          with bd[OF t] have "idx ! t < tyf x" by (simp add: boundary_def)
          with x show False by simp
        qed
        have "lo t \<le> x"
        proof (cases "t = 0")
          case True then show ?thesis using x by (simp add: lo_def)
        next
          case False
          then have t1: "t - 1 < T" using t by simp
          show ?thesis
          proof (rule ccontr)
            assume "\<not> lo t \<le> x"
            with False x have "x \<in> {b..<p (t - 1)}" by (simp add: lo_def)
            with bd[OF t1] have "tyf x \<le> idx ! (t - 1)" by (simp add: boundary_def)
            moreover have "idx ! (t - 1) \<le> idx ! t"
              using si(1) t by (simp add: sorted_nth_mono T_def)
            moreover have "idx ! (t - 1) \<noteq> idx ! t"
              using si(2) t t1 False by (simp add: nth_eq_iff_index_eq T_def)
            ultimately show False using x by simp
          qed
        qed
        with up show "x \<in> {lo t..<p t}" by simp
      qed
      have gt: "GetType m t = Inr (idx ! t)" if "t < T" for t
        using that by (simp add: GetType_def rd_def idx_def T_def)
      have eot: "edges_of_type pg m e_topo n t = {x \<in> {b..<e}. tyf x = idx ! t}" if t: "t < T" for t
      proof -
        have "edges_of_type pg m e_topo n t = {x \<in> {b..<e}. edge_type pg e_topo x = Inr (idx ! t)}"
          by (simp add: edges_of_type_def oe gt[OF t])
        also have "\<dots> = {x \<in> {b..<e}. tyf x = idx ! t}"
          using ty by auto
        finally show ?thesis .
      qed
      have rs: "R t = {x \<in> {b..<e}. tyf x = idx ! t}" if t: "t < T" for t
        using chr[OF t] oet[OF t] by (simp add: range_set_def R_def)
      have dj: "R t \<inter> R t' = {}" if "t < T" "t' < T" "t' \<noteq> t" for t t'
      proof -
        have "idx ! t \<noteq> idx ! t'" using si(2) that by (simp add: nth_eq_iff_index_eq T_def)
        then show ?thesis unfolding rs[OF that(1)] rs[OF that(2)] by auto
      qed
      have un: "(\<Union>t<T. R t) = {b..<e}"
      proof (intro set_eqI iffI)
        fix x assume "x \<in> (\<Union>t<T. R t)"
        then obtain t where "t < T" "x \<in> R t" by auto
        then show "x \<in> {b..<e}" using rs[of t] by simp
      next
        fix x assume x: "x \<in> {b..<e}"
        from mem[OF x] obtain j where j: "j < T" "idx ! j = tyf x"
          by (auto simp: in_set_conv_nth T_def)
        then have "x \<in> R j" using x rs[OF j(1)] by simp
        with j(1) show "x \<in> (\<Union>t<T. R t)" by auto
      qed
      have r0: "range_set (OutEdges e_topo n) = {b..<e}"
        by (simp add: oe range_set_def)
      have "(\<forall>t<T. (\<exists>r. OutEdges_of_type vv n t = Inr r) \<and> R t = edges_of_type pg m e_topo n t \<and>
               (\<forall>t'<T. t' \<noteq> t \<longrightarrow> R t \<inter> R t' = {}))
            \<and> (\<Union>t<T. R t) = range_set (OutEdges e_topo n)"
      proof (intro conjI allI impI)
        fix t assume t: "t < T"
        show "\<exists>r. OutEdges_of_type vv n t = Inr r" using oet[OF t] by blast
        show "R t = edges_of_type pg m e_topo n t" using rs[OF t] eot[OF t] by simp
        fix t' assume "t' < T" "t' \<noteq> t"
        then show "R t \<inter> R t' = {}" using dj t by blast
      next
        show "(\<Union>t<T. R t) = range_set (OutEdges e_topo n)" using un r0 by simp
      qed
      then show ?thesis unfolding R_def .
    qed
    from r have r': "MakeFrom pg m e_topo order = Inr vv" by (simp add: vv_def)
    have "\<forall>n<N. (\<forall>t<T.
           (\<exists>r. OutEdges_of_type vv n t = Inr r) \<and>
           range_set (OutEdges_of_type vv n t) = edges_of_type pg m e_topo n t \<and>
           (\<forall>t'<T. t' \<noteq> t \<longrightarrow>
              range_set (OutEdges_of_type vv n t) \<inter> range_set (OutEdges_of_type vv n t') = {})) \<and>
        (\<Union>t<T. range_set (OutEdges_of_type vv n t)) = range_set (OutEdges e_topo n)"
      using main by blast
    moreover have "adj_indices vv = adj_indices e_topo" "dests vv = dests e_topo"
      "edge_prop_indices vv = edge_prop_indices e_topo"
      "node_prop_indices vv = node_prop_indices e_topo"
      "tpose_state vv = tpose_state e_topo" "edge_sort_state vv = edge_sort_state e_topo"
      "edge_type_index vv = m" "length (per_type_adj_indices vv) = N * T"
      by (simp_all add: vv_def adj(2))
    ultimately show ?thesis using r' unfolding Tm N_def by blast
  qed
qed

theorem per_type_adjacency_correct_witness:
  "valid_csr S1_by_type \<and> has_edges_sorted_by S1_by_type kSortedByEdgeType
   \<and> NumEdges S1_by_type = NumEdges (topology S1_graph)
   \<and> sorted_by_edge_type S1_graph S1_by_type
   \<and> covers_edge_types S1_types S1_graph S1_by_type
   \<and> strictly_ascending S1_types
   \<and> do_all_nodes S1_by_type [2, 0, 3, 1]
   \<and> (\<exists>v. MakeFrom S1_graph S1_types S1_by_type [2, 0, 3, 1] = Inr v \<and>
     adj_indices v = adj_indices S1_by_type \<and> dests v = dests S1_by_type \<and>
     edge_prop_indices v = edge_prop_indices S1_by_type \<and>
     node_prop_indices v = node_prop_indices S1_by_type \<and>
     tpose_state v = tpose_state S1_by_type \<and> edge_sort_state v = edge_sort_state S1_by_type \<and>
     edge_type_index v = S1_types \<and>
     length (per_type_adj_indices v) = NumNodes S1_by_type * num_unique_types S1_types \<and>
     (\<forall>n<NumNodes S1_by_type.
        (\<forall>t<num_unique_types S1_types.
           (\<exists>r. OutEdges_of_type v n t = Inr r) \<and>
           range_set (OutEdges_of_type v n t) = edges_of_type S1_graph S1_types S1_by_type n t \<and>
           (\<forall>t'<num_unique_types S1_types. t' \<noteq> t \<longrightarrow>
              range_set (OutEdges_of_type v n t) \<inter> range_set (OutEdges_of_type v n t') = {})) \<and>
        (\<Union>t<num_unique_types S1_types. range_set (OutEdges_of_type v n t))
          = range_set (OutEdges S1_by_type n)))"
proof -
  have h1: "valid_csr S1_by_type"
    by code_simp
  have h2: "has_edges_sorted_by S1_by_type kSortedByEdgeType"
    by code_simp
  have h3: "NumEdges S1_by_type = NumEdges (topology S1_graph)"
    by code_simp
  have h4: "sorted_by_edge_type S1_graph S1_by_type"
    by code_simp
  have h5: "covers_edge_types S1_types S1_graph S1_by_type"
    by code_simp
  have h6: "strictly_ascending S1_types"
    by code_simp
  have h7: "do_all_nodes S1_by_type [2, 0, 3, 1]"
    by code_simp
  show ?thesis
    using h1 h2 h3 h4 h5 h6 h7 per_type_adjacency_correct [OF h1 h2 h3 h4 h5 h6 h7]
    by blast
qed

text \<open>The table that \<open>CreatePerEdgeTypeAdjacencyIndex\<close> computes for this view.\<close>

lemma per_type_adjacency_S1:
  "CreatePerEdgeTypeAdjacencyIndex S1_graph S1_types S1_by_type [2, 0, 3, 1]
     = Inr [1, 2, 2, 2, 2, 2, 2, 3, 3, 4, 4, 5]"
  by code_simp


section \<open>Sorting a sorted view again\<close>

lemma swo_key:
  fixes k :: "'a \<Rightarrow> 'k::linorder"
  assumes "\<And>a b. cmp a b = (k a < k b)"
  shows "strict_weak_order cmp"
  unfolding strict_weak_order_def assms by auto

lemma sorted_wrt_key:
  fixes k :: "'a \<Rightarrow> 'k::linorder"
  shows "sorted_wrt (\<lambda>a b. \<not> k b < k a) ys = sorted (map k ys)"
  by (simp add: sorted_map not_less)

lemma sorted_perm_keys:
  fixes k :: "'a \<Rightarrow> 'k::linorder"
  assumes "sorted (map k xs)" "mset ys = mset xs" "sorted_wrt (\<lambda>a b. \<not> k b < k a) ys"
  shows "map k ys = map k xs"
proof -
  have "sorted (map k ys)" using assms(3) by (simp add: sorted_wrt_key)
  moreover have "mset (map k ys) = mset (map k xs)" using assms(2) by (metis mset_map)
  ultimately have "sort (map k xs) = map k ys" by (intro properties_for_sort) simp_all
  then show ?thesis using assms(1) by (simp add: sorted_sort_id)
qed

lemma sorted_perm_same:
  fixes k :: "'a \<Rightarrow> 'k::linorder"
  assumes "sorted (map k xs)" "mset ys = mset xs" "sorted_wrt (\<lambda>a b. \<not> k b < k a) ys"
    and "distinct (map k xs)"
  shows "ys = xs"
proof -
  have m: "map k ys = map k xs" by (rule sorted_perm_keys[OF assms(1-3)])
  have "inj_on k (set xs)" using assms(4) by (simp add: distinct_map)
  moreover have "set ys = set xs" using assms(2) by (metis set_mset_mset)
  ultimately have "inj_on k (set ys \<union> set xs)" by simp
  then show ?thesis using m by (simp add: inj_on_map_eq_map)
qed

lemma dest_less_key: "dest_less a b = (snd a < snd b)"
  by (simp add: dest_less_def)

lemma type_then_dest_less_key:
  "type_then_dest_less pg a b = (type_dest_key pg a < type_dest_key pg b)"
  by (auto simp: type_then_dest_less_def type_dest_key_def Let_def less_prod_def)

lemma mset_insert_after: "mset (insert_after cmp x ys) = add_mset x (mset ys)"
  by (induction ys) auto

lemma mset_insert_before: "mset (insert_before cmp x ys) = add_mset x (mset ys)"
  by (induction ys) auto

lemma set_insert_after: "set (insert_after cmp x ys) = insert x (set ys)"
  by (metis mset_insert_after set_mset_add_mset_insert set_mset_mset)

lemma set_insert_before: "set (insert_before cmp x ys) = insert x (set ys)"
  by (metis mset_insert_before set_mset_add_mset_insert set_mset_mset)

lemma sorted_insert_after:
  assumes "strict_weak_order cmp" "sorted_wrt (\<lambda>a b. \<not> cmp b a) ys"
  shows "sorted_wrt (\<lambda>a b. \<not> cmp b a) (insert_after cmp x ys)"
  using assms(2)
proof (induction ys)
  case Nil
  then show ?case by simp
next
  case (Cons y ys)
  from assms(1) have tr: "\<And>a b c. cmp a b \<Longrightarrow> cmp b c \<Longrightarrow> cmp a c"
    and irr: "\<And>a. \<not> cmp a a"
    unfolding strict_weak_order_def by blast+
  show ?case
  proof (cases "cmp x y")
    case True
    have "\<not> cmp z x" if "z \<in> set (y # ys)" for z
    proof
      assume "cmp z x"
      with True have zy: "cmp z y" using tr by blast
      from that Cons.prems have "z = y \<or> \<not> cmp z y" by auto
      with zy irr show False by auto
    qed
    then show ?thesis using True Cons.prems by auto
  next
    case False
    then show ?thesis using Cons by (auto simp: set_insert_after)
  qed
qed

lemma sorted_insert_before:
  assumes "strict_weak_order cmp" "sorted_wrt (\<lambda>a b. \<not> cmp b a) ys"
  shows "sorted_wrt (\<lambda>a b. \<not> cmp b a) (insert_before cmp x ys)"
  using assms(2)
proof (induction ys)
  case Nil
  then show ?case by simp
next
  case (Cons y ys)
  from assms(1) have inc: "\<And>a b c. \<not> cmp a b \<Longrightarrow> \<not> cmp b a \<Longrightarrow> \<not> cmp b c \<Longrightarrow> \<not> cmp c b \<Longrightarrow> \<not> cmp c a"
    and tr: "\<And>a b c. cmp a b \<Longrightarrow> cmp b c \<Longrightarrow> cmp a c"
    and irr: "\<And>a. \<not> cmp a a"
    unfolding strict_weak_order_def by blast+
  show ?case
  proof (cases "cmp y x")
    case True
    have "\<not> cmp x y"
    proof
      assume "cmp x y"
      with True have "cmp y y" using tr by blast
      with irr show False by simp
    qed
    then show ?thesis using True Cons by (auto simp: set_insert_before)
  next
    case False
    have "\<not> cmp z x" if "z \<in> set ys" for z
    proof
      assume zx: "cmp z x"
      from that Cons.prems have nzy: "\<not> cmp z y" by auto
      show False
      proof (cases "cmp x y")
        case True
        with zx have "cmp z y" using tr by blast
        with nzy show False by simp
      next
        case nxy: False
        show False
        proof (cases "cmp y z")
          case True
          then have "cmp y x" using zx tr by blast
          with False show False by simp
        next
          case nyz: False
          from inc[OF nxy False nyz nzy] zx show False by simp
        qed
      qed
    qed
    then show ?thesis using False Cons.prems by auto
  qed
qed

lemma reversing_insertion_sort_contract: "std_sort_contract reversing_insertion_sort"
proof -
  have "mset (foldr (insert_after cmp) xs []) = mset xs" for cmp :: "'a \<Rightarrow> 'a \<Rightarrow> bool" and xs
    by (induction xs) (simp_all add: mset_insert_after)
  moreover have "sorted_wrt (\<lambda>a b. \<not> cmp b a) (foldr (insert_after cmp) xs [])"
    if "strict_weak_order cmp" for cmp :: "'a \<Rightarrow> 'a \<Rightarrow> bool" and xs
    by (induction xs) (simp_all add: sorted_insert_after[OF that])
  ultimately show ?thesis
    by (simp add: std_sort_contract_def reversing_insertion_sort_def)
qed

lemma stable_insertion_sort_contract: "std_sort_contract stable_insertion_sort"
proof -
  have "mset (foldr (insert_before cmp) xs []) = mset xs" for cmp :: "'a \<Rightarrow> 'a \<Rightarrow> bool" and xs
    by (induction xs) (simp_all add: mset_insert_before)
  moreover have "sorted_wrt (\<lambda>a b. \<not> cmp b a) (foldr (insert_before cmp) xs [])"
    if "strict_weak_order cmp" for cmp :: "'a \<Rightarrow> 'a \<Rightarrow> bool" and xs
    by (induction xs) (simp_all add: sorted_insert_before[OF that])
  ultimately show ?thesis
    by (simp add: std_sort_contract_def stable_insertion_sort_def)
qed


lemma slice_decomp: "b \<le> e \<Longrightarrow> e \<le> length zs \<Longrightarrow> take b zs @ slice b e zs @ drop e zs = zs"
proof -
  assume a: "b \<le> e" "e \<le> length zs"
  have "drop (e - b) (drop b zs) = drop e zs" using a by simp
  then have "slice b e zs @ drop e zs = drop b zs"
    unfolding slice_def by (metis append_take_drop_id)
  then show ?thesis by simp
qed

lemma splice_length:
  "b \<le> e \<Longrightarrow> e \<le> length zs \<Longrightarrow> length S = e - b \<Longrightarrow>
   length (take b zs @ S @ drop e zs) = length zs"
  by simp

lemma splice_slice_same:
  "b \<le> e \<Longrightarrow> e \<le> length zs \<Longrightarrow> length S = e - b \<Longrightarrow>
   slice b e (take b zs @ S @ drop e zs) = S"
  by (simp add: slice_def)

lemma splice_slice_before:
  "b \<le> e \<Longrightarrow> e \<le> length zs \<Longrightarrow> length S = e - b \<Longrightarrow> e' \<le> b \<Longrightarrow>
   slice b' e' (take b zs @ S @ drop e zs) = slice b' e' zs"
  by (cases "b' \<le> e'") (simp_all add: slice_def drop_take min_def)

lemma splice_slice_after:
  "b \<le> e \<Longrightarrow> e \<le> length zs \<Longrightarrow> length S = e - b \<Longrightarrow> e \<le> b' \<Longrightarrow>
   slice b' e' (take b zs @ S @ drop e zs) = slice b' e' zs"
  by (simp add: slice_def)

lemma splice_map_keys:
  assumes "b \<le> e" "e \<le> length zs" "map k S = map k (slice b e zs)"
  shows "map k (take b zs @ S @ drop e zs) = map k zs"
proof -
  have "map k (take b zs @ S @ drop e zs) = map k (take b zs @ slice b e zs @ drop e zs)"
    using assms(3) by simp
  then show ?thesis using slice_decomp[OF assms(1,2)] by simp
qed

lemma sort_node_edges_zip:
  assumes "length epi = length ds" "OutEdges t n = Inr (b, e)" "e \<le> length ds"
  shows "\<exists>epi' ds'. sort_node_edges srt cmp t n (epi, ds) = Inr (epi', ds')
           \<and> length epi' = length ds'
           \<and> zip epi' ds' = take b (zip epi ds) @ srt cmp (slice b e (zip epi ds)) @ drop e (zip epi ds)"
proof -
  have z: "zip (slice b e epi) (slice b e ds) = slice b e (zip epi ds)"
    by (simp add: slice_def take_zip drop_zip)
  show ?thesis
    using assms
    by (simp add: sort_node_edges_def Let_def z take_zip drop_zip zip_map_fst_snd)
qed

lemma csr_ranges:
  assumes "valid_csr t" "n < NumNodes t"
  shows "OutEdges t n = Inr (range_beg t n, range_end t n)"
    and "range_beg t n \<le> range_end t n"
    and "range_end t n \<le> NumEdges t"
    and "n' < n \<Longrightarrow> range_end t n' \<le> range_beg t n"
proof -
  from assms(2) have ne: "adj_indices t \<noteq> []" by (auto simp: NumNodes_def)
  from assms(1) have s: "sorted (adj_indices t)" by (simp add: valid_csr_def)
  from assms(1) ne have l: "last (adj_indices t) = length (dests t)"
    by (simp add: valid_csr_def)
  from assms(2) have n: "n < length (adj_indices t)" by (simp add: NumNodes_def)
  show be: "range_beg t n \<le> range_end t n"
    using s n by (auto simp: range_beg_def range_end_def intro: sorted_nth_mono)
  then show "OutEdges t n = Inr (range_beg t n, range_end t n)"
    using assms(2) by (simp add: OutEdges_def Let_def range_beg_def range_end_def)
  have "adj_indices t ! n \<le> adj_indices t ! (length (adj_indices t) - 1)"
    using s n by (intro sorted_nth_mono) auto
  then show "range_end t n \<le> NumEdges t"
    using l ne by (simp add: last_conv_nth range_end_def NumEdges_def)
  show "range_end t n' \<le> range_beg t n" if "n' < n"
  proof -
    from that have "n' \<le> n - 1" "n \<noteq> 0" by simp_all
    then show ?thesis using s n by (auto simp: range_beg_def range_end_def intro: sorted_nth_mono)
  qed
qed

lemma sort_step_inv:
  fixes k :: "PropertyIndex \<times> Node \<Rightarrow> 'k::linorder"
  assumes con: "std_sort_contract srt" and key: "\<And>a b. cmp a b = (k a < k b)"
    and csr: "valid_csr t" and len0: "length zs0 = NumEdges t"
    and sorted0: "\<forall>n<NumNodes t. sorted (map k (slice (range_beg t n) (range_end t n) zs0))"
    and dk0: "dk \<longrightarrow> (\<forall>n<NumNodes t. distinct (map k (slice (range_beg t n) (range_end t n) zs0)))"
    and inv: "sort_inv k t dk zs0 (epi, ds)" and n: "n < NumNodes t"
  shows "\<exists>epi' ds'. sort_node_edges srt cmp t n (epi, ds) = Inr (epi', ds')
           \<and> sort_inv k t dk zs0 (epi', ds')"
proof -
  define b where "b = range_beg t n"
  define e where "e = range_end t n"
  define zs where "zs = zip epi ds"
  from inv have l: "length epi = length zs0" "length ds = length zs0"
    and mk: "map k zs = map k zs0"
    and ms: "\<forall>n<NumNodes t. mset (slice (range_beg t n) (range_end t n) zs)
                         = mset (slice (range_beg t n) (range_end t n) zs0)"
    and same: "dk \<longrightarrow> zs = zs0"
    by (simp_all add: sort_inv_def zs_def)
  have lz: "length zs = NumEdges t" using l len0 by (simp add: zs_def)
  from csr_ranges[OF csr n] have oe: "OutEdges t n = Inr (b, e)" and be: "b \<le> e"
    and eE: "e \<le> length zs" by (simp_all add: b_def e_def lz)
  define S where "S = srt cmp (slice b e zs)"
  from sort_node_edges_zip[OF _ oe, of epi ds srt cmp] l eE
  obtain epi' ds' where r: "sort_node_edges srt cmp t n (epi, ds) = Inr (epi', ds')"
    "length epi' = length ds'" "zip epi' ds' = take b zs @ S @ drop e zs"
    by (auto simp: zs_def S_def)
  have swo: "strict_weak_order cmp" by (rule swo_key[of cmp k, OF key])
  from con swo have S1: "mset S = mset (slice b e zs)"
    and S2: "sorted_wrt (\<lambda>a b. \<not> k b < k a) S"
    unfolding std_sort_contract_def S_def key[symmetric] by blast+
  have lS: "length S = e - b"
    using S1 be eE by (metis size_mset length_take length_drop slice_def min.absorb2 diff_le_mono)
  have "map k (slice b e zs) = slice b e (map k zs)"
    by (simp add: slice_def take_map drop_map)
  also have "\<dots> = map k (slice b e zs0)"
    by (simp add: mk slice_def take_map drop_map)
  finally have ks: "map k (slice b e zs) = map k (slice b e zs0)" .
  have srt0: "sorted (map k (slice b e zs))"
    using sorted0 n ks by (simp add: b_def e_def)
  have kS: "map k S = map k (slice b e zs)"
    by (rule sorted_perm_keys[OF srt0 S1 S2])
  define zs' where "zs' = take b zs @ S @ drop e zs"
  have l': "length zs' = length zs" unfolding zs'_def by (rule splice_length[OF be eE lS])
  have mk': "map k zs' = map k zs0"
    unfolding zs'_def using splice_map_keys[OF be eE kS] mk by simp
  have ms': "mset (slice (range_beg t n') (range_end t n') zs')
              = mset (slice (range_beg t n') (range_end t n') zs0)" if n': "n' < NumNodes t" for n'
  proof -
    consider "n' = n" | "n' < n" | "n < n'" by linarith
    then show ?thesis
    proof cases
      case 1
      then show ?thesis
        using splice_slice_same[OF be eE lS] S1 ms n by (simp add: zs'_def b_def e_def)
    next
      case 2
      from csr_ranges(4)[OF csr n 2] have "range_end t n' \<le> b" by (simp add: b_def)
      from splice_slice_before[OF be eE lS this] ms n' show ?thesis by (simp add: zs'_def)
    next
      case 3
      from csr_ranges(4)[OF csr n' 3] have "e \<le> range_beg t n'" by (simp add: e_def)
      from splice_slice_after[OF be eE lS this] ms n' show ?thesis by (simp add: zs'_def)
    qed
  qed
  have same': "dk \<longrightarrow> zs' = zs0"
  proof
    assume dk
    with same have z0: "zs = zs0" by simp
    from dk0 \<open>dk\<close> n have "distinct (map k (slice b e zs0))" by (simp add: b_def e_def)
    then have "distinct (map k (slice b e zs))" by (simp add: z0)
    from sorted_perm_same[OF srt0 S1 S2 this] have "S = slice b e zs" .
    then show "zs' = zs0" using slice_decomp[OF be eE] z0 by (simp add: zs'_def)
  qed
  have le': "length epi' = length zs0" "length ds' = length zs0"
  proof -
    have "length (zip epi' ds') = length zs0" using r(3) l' l by (simp add: zs'_def zs_def)
    then show "length epi' = length zs0" "length ds' = length zs0" using r(2) by simp_all
  qed
  have "sort_inv k t dk zs0 (epi', ds')"
    using le' mk' ms' same' r(3) by (simp add: sort_inv_def zs'_def)
  then show ?thesis using r(1) by blast
qed

lemma do_all_invariant:
  assumes "\<And>n s. n \<in> set order \<Longrightarrow> I s \<Longrightarrow> \<exists>s'. body n s = Inr s' \<and> I s'" and "I s"
  shows "\<exists>s'. do_all body order s = Inr s' \<and> I s'"
  using assms
proof (induction order arbitrary: s)
  case Nil
  then show ?case by simp
next
  case (Cons n ns)
  from Cons.prems(1)[of n s] Cons.prems(2) obtain s1 where s1: "body n s = Inr s1" "I s1" by auto
  from Cons.IH[of s1] Cons.prems(1) s1(2) obtain s' where "do_all body ns s1 = Inr s'" "I s'"
    by auto
  then show ?case using s1 by auto
qed


lemma node_tuples_eq:
  assumes "valid_csr t" "n < NumNodes t"
  shows "node_tuples t n = slice (range_beg t n) (range_end t n) (zip (edge_prop_indices t) (dests t))"
  using csr_ranges(1)[OF assms] by (simp add: node_tuples_def)

lemma slice_map: "slice b e (map f xs) = map f (slice b e xs)"
  by (simp add: slice_def take_map drop_map)

lemma slice_zip_snd: "length xs = length ys \<Longrightarrow> map snd (slice b e (zip xs ys)) = slice b e ys"
  by (simp flip: slice_map)

lemma slice_zip_fst: "length xs = length ys \<Longrightarrow> map fst (slice b e (zip xs ys)) = slice b e xs"
  by (simp flip: slice_map)

lemma sort_all_by_dest:
  assumes con: "std_sort_contract srt" and ok: "edge_shuffle_ok v" and ord: "do_all_nodes v order"
    and sd: "sorted_by_dest v"
  shows "\<exists>epi' ds'. do_all (sort_node_by_dest srt v) order (edge_prop_indices v, dests v) = Inr (epi', ds')
           \<and> sort_inv snd v (distinct_keys snd v) (zip (edge_prop_indices v) (dests v)) (epi', ds')"
proof -
  define zs0 where "zs0 = zip (edge_prop_indices v) (dests v)"
  define dk where "dk = distinct_keys snd v"
  from ok have csr: "valid_csr v" and le: "length (edge_prop_indices v) = length (dests v)"
    by (simp_all add: edge_shuffle_ok_def)
  have len0: "length zs0 = NumEdges v" using le by (simp add: zs0_def NumEdges_def)
  have so: "set order = {0..<NumNodes v}"
    using ord unfolding do_all_nodes_def Nodes_def by (metis set_sort set_upt)
  have sl: "sorted (slice (range_beg v n) (range_end v n) (dests v))" if "n < NumNodes v" for n
  proof -
    from sd that have "case OutEdges v n of Inl err \<Rightarrow> False
         | Inr (e_beg, e_end) \<Rightarrow> sorted (take (e_end - e_beg) (drop e_beg (dests v)))"
      by (simp add: sorted_by_dest_def list_all_iff Nodes_def)
    then show ?thesis using csr_ranges(1)[OF csr that] by (simp add: slice_def)
  qed
  have sorted0: "\<forall>n<NumNodes v. sorted (map snd (slice (range_beg v n) (range_end v n) zs0))"
    using sl le by (simp add: zs0_def slice_zip_snd)
  have dk0: "dk \<longrightarrow> (\<forall>n<NumNodes v. distinct (map snd (slice (range_beg v n) (range_end v n) zs0)))"
    using node_tuples_eq[OF csr]
    by (auto simp: dk_def distinct_keys_def list_all_iff Nodes_def zs0_def)
  have step: "\<exists>s'. sort_node_by_dest srt v n s = Inr s' \<and> sort_inv snd v dk zs0 s'"
    if n: "n \<in> set order" and inv: "sort_inv snd v dk zs0 s" for n s
  proof -
    obtain epi ds where s: "s = (epi, ds)" by (cases s)
    from n so have nn: "n < NumNodes v" by simp
    from sort_step_inv[OF con dest_less_key csr len0 sorted0 dk0 inv[unfolded s] nn]
    obtain epi' ds' where r: "sort_node_edges srt dest_less v n (epi, ds) = Inr (epi', ds')"
      "sort_inv snd v dk zs0 (epi', ds')" by blast
    from r(2) have "length epi' = length ds'" "map snd (zip epi' ds') = map snd zs0"
      by (simp_all add: sort_inv_def)
    then have "ds' = dests v" using le by (simp add: zs0_def)
    then have "sorted (slice (range_beg v n) (range_end v n) ds')" using sl[OF nn] by simp
    then show ?thesis
      using r csr_ranges(1)[OF csr nn] by (simp add: sort_node_by_dest_def s)
  qed
  have "sort_inv snd v dk zs0 (edge_prop_indices v, dests v)"
    using le by (simp add: sort_inv_def zs0_def)
  from do_all_invariant[of order "sort_inv snd v dk zs0" "sort_node_by_dest srt v", OF step this]
  show ?thesis by (auto simp: zs0_def dk_def)
qed

lemma sort_all_by_type_then_dest:
  assumes con: "std_sort_contract srt" and ok: "edge_shuffle_ok v" and ord: "do_all_nodes v order"
    and sd: "sorted_by_type_then_dest pg v"
  shows "\<exists>epi' ds'. do_all (sort_node_by_type_then_dest srt pg v) order
                       (edge_prop_indices v, dests v) = Inr (epi', ds')
           \<and> sort_inv (type_dest_key pg) v (distinct_keys (type_dest_key pg) v)
                (zip (edge_prop_indices v) (dests v)) (epi', ds')"
proof -
  define zs0 where "zs0 = zip (edge_prop_indices v) (dests v)"
  define dk where "dk = distinct_keys (type_dest_key pg) v"
  define k where "k = type_dest_key pg"
  from ok have csr: "valid_csr v" and le: "length (edge_prop_indices v) = length (dests v)"
    by (simp_all add: edge_shuffle_ok_def)
  have len0: "length zs0 = NumEdges v" using le by (simp add: zs0_def NumEdges_def)
  have so: "set order = {0..<NumNodes v}"
    using ord unfolding do_all_nodes_def Nodes_def by (metis set_sort set_upt)
  have sorted0: "\<forall>n<NumNodes v. sorted (map k (slice (range_beg v n) (range_end v n) zs0))"
    using sd node_tuples_eq[OF csr]
    by (auto simp: sorted_by_type_then_dest_def list_all_iff Nodes_def zs0_def k_def)
  have typed0: "\<forall>n<NumNodes v. \<forall>tup \<in> set (slice (range_beg v n) (range_end v n) zs0).
                  fst tup < length (edge_entity_type_ids pg)"
    using sd node_tuples_eq[OF csr]
    by (auto simp: sorted_by_type_then_dest_def list_all_iff Nodes_def zs0_def)
  have dk0: "dk \<longrightarrow> (\<forall>n<NumNodes v. distinct (map k (slice (range_beg v n) (range_end v n) zs0)))"
    using node_tuples_eq[OF csr]
    by (auto simp: dk_def distinct_keys_def list_all_iff Nodes_def zs0_def k_def)
  have key: "\<And>a b. type_then_dest_less pg a b = (k a < k b)"
    by (simp add: type_then_dest_less_key k_def)
  have step: "\<exists>s'. sort_node_by_type_then_dest srt pg v n s = Inr s' \<and> sort_inv k v dk zs0 s'"
    if n: "n \<in> set order" and inv: "sort_inv k v dk zs0 s" for n s
  proof -
    obtain epi ds where s: "s = (epi, ds)" by (cases s)
    from n so have nn: "n < NumNodes v" by simp
    from sort_step_inv[OF con key csr len0 sorted0 dk0 inv[unfolded s] nn]
    obtain epi' ds' where r: "sort_node_edges srt (type_then_dest_less pg) v n (epi, ds) = Inr (epi', ds')"
      "sort_inv k v dk zs0 (epi', ds')" by blast
    from inv have l: "length epi = length ds"
      and ms: "mset (slice (range_beg v n) (range_end v n) (zip epi ds))
                = mset (slice (range_beg v n) (range_end v n) zs0)"
      using nn by (simp_all add: sort_inv_def s)
    from ms have "set (slice (range_beg v n) (range_end v n) (zip epi ds))
                = set (slice (range_beg v n) (range_end v n) zs0)" by (metis set_mset_mset)
    with typed0 nn have "\<forall>tup \<in> set (slice (range_beg v n) (range_end v n) (zip epi ds)).
                  fst tup < length (edge_entity_type_ids pg)" by simp
    then have "\<forall>i \<in> set (map fst (slice (range_beg v n) (range_end v n) (zip epi ds))).
                  i < length (edge_entity_type_ids pg)" by simp
    then have "list_all (\<lambda>i. i < length (edge_entity_type_ids pg))
                 (slice (range_beg v n) (range_end v n) epi)"
      unfolding slice_zip_fst[OF l] by (simp add: list_all_iff)
    then show ?thesis
      using r csr_ranges(1)[OF csr nn] by (simp add: sort_node_by_type_then_dest_def Let_def s)
  qed
  have "sort_inv k v dk zs0 (edge_prop_indices v, dests v)"
    using le by (simp add: sort_inv_def zs0_def)
  from do_all_invariant[of order "sort_inv k v dk zs0" "sort_node_by_type_then_dest srt pg v",
      OF step this]
  show ?thesis by (auto simp: zs0_def dk_def k_def)
qed

lemma sort_inv_result:
  fixes v :: EdgeShuffleTopology
  assumes csr: "valid_csr v" and le: "length (edge_prop_indices v) = length (dests v)"
    and inv: "sort_inv k v dk (zip (edge_prop_indices v) (dests v)) (epi', ds')"
    and v': "v' = v\<lparr>edge_prop_indices := epi', dests := ds', edge_sort_state := st\<rparr>"
  shows "adj_indices v' = adj_indices v"
    and "map k (zip (edge_prop_indices v') (dests v')) = map k (zip (edge_prop_indices v) (dests v))"
    and "\<forall>n<NumNodes v. mset (node_tuples v' n) = mset (node_tuples v n)"
    and "dk \<longrightarrow> edge_prop_indices v' = edge_prop_indices v \<and> dests v' = dests v"
proof -
  from inv have l: "length epi' = length (dests v)" "length ds' = length (dests v)"
    and mk: "map k (zip epi' ds') = map k (zip (edge_prop_indices v) (dests v))"
    and ms: "\<forall>n<NumNodes v. mset (slice (range_beg v n) (range_end v n) (zip epi' ds'))
               = mset (slice (range_beg v n) (range_end v n) (zip (edge_prop_indices v) (dests v)))"
    and same: "dk \<longrightarrow> zip epi' ds' = zip (edge_prop_indices v) (dests v)"
    using le by (simp_all add: sort_inv_def)
  show "adj_indices v' = adj_indices v" by (simp add: v')
  show "map k (zip (edge_prop_indices v') (dests v')) = map k (zip (edge_prop_indices v) (dests v))"
    using mk by (simp add: v')
  show "\<forall>n<NumNodes v. mset (node_tuples v' n) = mset (node_tuples v n)"
  proof (intro allI impI)
    fix n assume n: "n < NumNodes v"
    have "OutEdges v' n = OutEdges v n" by (simp add: v' OutEdges_def NumNodes_def)
    then have "node_tuples v' n = slice (range_beg v n) (range_end v n) (zip epi' ds')"
      using csr_ranges(1)[OF csr n] by (simp add: node_tuples_def v')
    then show "mset (node_tuples v' n) = mset (node_tuples v n)"
      using ms n node_tuples_eq[OF csr n] by simp
  qed
  show "dk \<longrightarrow> edge_prop_indices v' = edge_prop_indices v \<and> dests v' = dests v"
  proof
    assume dk
    with same have z: "zip epi' ds' = zip (edge_prop_indices v) (dests v)" by simp
    have "map fst (zip epi' ds') = epi'" "map snd (zip epi' ds') = ds'" using l by simp_all
    moreover have "map fst (zip (edge_prop_indices v) (dests v)) = edge_prop_indices v"
      "map snd (zip (edge_prop_indices v) (dests v)) = dests v" using le by simp_all
    ultimately show "edge_prop_indices v' = edge_prop_indices v \<and> dests v' = dests v"
      using z by (simp add: v')
  qed
qed

text \<open>
  C5 (as amended).  Let \<open>std::sort\<close> be any function that meets the standard's contract, let
  the view be a valid CSR with one property index per edge, and let the \<open>do_all\<close> run
  every node once.  If every node's edges are already sorted by destination, then
  \<open>SortEdgesByDestID\<close> returns a view with identical \<open>adj_indices\<close> and \<open>dests\<close>, in which
  every node has the same multiset of (property index, destination) tuples; and if no
  node has two edges to the same destination, \<open>edge_prop_indices\<close> is identical too.
  If every node's edges are already sorted by type, then destination, then
  \<open>SortEdgesByTypeThenDest\<close> returns a view with identical \<open>adj_indices\<close> and \<open>dests\<close> and
  the same edge type at every position, in which every node has the same multiset of
  tuples; and if no node has two edges with the same type and destination,
  \<open>edge_prop_indices\<close> is identical too.
\<close>

theorem resort_sorted_view:
  assumes con: "std_sort_contract srt" and ok: "edge_shuffle_ok v" and ord: "do_all_nodes v order"
  shows "(sorted_by_dest v \<longrightarrow>
            (\<exists>v'. SortEdgesByDestID srt order v = Inr v'
                 \<and> adj_indices v' = adj_indices v \<and> dests v' = dests v
                 \<and> (\<forall>n<NumNodes v. mset (node_tuples v' n) = mset (node_tuples v n))
                 \<and> (distinct_keys snd v \<longrightarrow> edge_prop_indices v' = edge_prop_indices v)))
       \<and> (sorted_by_type_then_dest pg v \<longrightarrow>
            (\<exists>v'. SortEdgesByTypeThenDest srt pg order v = Inr v'
                 \<and> adj_indices v' = adj_indices v \<and> dests v' = dests v
                 \<and> map (type_of_prop pg) (edge_prop_indices v')
                     = map (type_of_prop pg) (edge_prop_indices v)
                 \<and> (\<forall>n<NumNodes v. mset (node_tuples v' n) = mset (node_tuples v n))
                 \<and> (distinct_keys (type_dest_key pg) v
                      \<longrightarrow> edge_prop_indices v' = edge_prop_indices v)))"
proof (intro conjI impI)
  from ok have csr: "valid_csr v" and le: "length (edge_prop_indices v) = length (dests v)"
    by (simp_all add: edge_shuffle_ok_def)
  {
    assume sd: "sorted_by_dest v"
    from sort_all_by_dest[OF con ok ord sd] obtain epi' ds'
      where r: "do_all (sort_node_by_dest srt v) order (edge_prop_indices v, dests v) = Inr (epi', ds')"
        and inv: "sort_inv snd v (distinct_keys snd v) (zip (edge_prop_indices v) (dests v)) (epi', ds')"
      by blast
    define v' where "v' = v\<lparr>edge_prop_indices := epi', dests := ds', edge_sort_state := kSortedByDestID\<rparr>"
    have res: "SortEdgesByDestID srt order v = Inr v'"
      by (simp add: SortEdgesByDestID_def r v'_def)
    note p = sort_inv_result[OF csr le inv v'_def]
    from inv have l: "length epi' = length ds'" by (simp add: sort_inv_def)
    have "map snd (zip (edge_prop_indices v') (dests v')) = dests v'"
      using l by (simp add: v'_def)
    with p(2) le have "dests v' = dests v" by simp
    with res p(1,3,4) show "\<exists>v'. SortEdgesByDestID srt order v = Inr v'
                 \<and> adj_indices v' = adj_indices v \<and> dests v' = dests v
                 \<and> (\<forall>n<NumNodes v. mset (node_tuples v' n) = mset (node_tuples v n))
                 \<and> (distinct_keys snd v \<longrightarrow> edge_prop_indices v' = edge_prop_indices v)"
      by blast
  }
  {
    assume sd: "sorted_by_type_then_dest pg v"
    from sort_all_by_type_then_dest[OF con ok ord sd] obtain epi' ds'
      where r: "do_all (sort_node_by_type_then_dest srt pg v) order
                  (edge_prop_indices v, dests v) = Inr (epi', ds')"
        and inv: "sort_inv (type_dest_key pg) v (distinct_keys (type_dest_key pg) v)
                    (zip (edge_prop_indices v) (dests v)) (epi', ds')"
      by blast
    define v' where "v' = v\<lparr>edge_prop_indices := epi', dests := ds', edge_sort_state := kSortedByEdgeType\<rparr>"
    have res: "SortEdgesByTypeThenDest srt pg order v = Inr v'"
      by (simp add: SortEdgesByTypeThenDest_def r v'_def)
    note p = sort_inv_result[OF csr le inv v'_def]
    from inv have l: "length (edge_prop_indices v') = length (dests v')" by (simp add: sort_inv_def v'_def)
    have cs: "snd \<circ> type_dest_key pg = snd" "fst \<circ> type_dest_key pg = type_of_prop pg \<circ> fst"
      by (auto simp: fun_eq_iff type_dest_key_def)
    from arg_cong[OF p(2), of "map snd"]
    have "map snd (zip (edge_prop_indices v') (dests v')) = map snd (zip (edge_prop_indices v) (dests v))"
      by (simp add: cs)
    with l le have d: "dests v' = dests v" by simp
    from arg_cong[OF p(2), of "map fst"]
    have "map (type_of_prop pg) (map fst (zip (edge_prop_indices v') (dests v')))
           = map (type_of_prop pg) (map fst (zip (edge_prop_indices v) (dests v)))"
      by (simp add: cs)
    with l le have t: "map (type_of_prop pg) (edge_prop_indices v')
                     = map (type_of_prop pg) (edge_prop_indices v)" by simp
    from res p(1,3,4) d t show "\<exists>v'. SortEdgesByTypeThenDest srt pg order v = Inr v'
                 \<and> adj_indices v' = adj_indices v \<and> dests v' = dests v
                 \<and> map (type_of_prop pg) (edge_prop_indices v')
                     = map (type_of_prop pg) (edge_prop_indices v)
                 \<and> (\<forall>n<NumNodes v. mset (node_tuples v' n) = mset (node_tuples v n))
                 \<and> (distinct_keys (type_dest_key pg) v
                      \<longrightarrow> edge_prop_indices v' = edge_prop_indices v)"
      by blast
  }
qed

theorem resort_sorted_view_witness:
  "std_sort_contract (stable_insertion_sort :: (PropertyIndex \<times> Node) sort_fn)
   \<and> edge_shuffle_ok S1_sorted \<and> do_all_nodes S1_sorted [3, 1, 0, 2]
   \<and> sorted_by_dest S1_sorted \<and> distinct_keys snd S1_sorted
   \<and> (\<exists>v'. SortEdgesByDestID stable_insertion_sort [3, 1, 0, 2] S1_sorted = Inr v'
          \<and> adj_indices v' = adj_indices S1_sorted \<and> dests v' = dests S1_sorted
          \<and> edge_prop_indices v' = edge_prop_indices S1_sorted)
   \<and> edge_shuffle_ok S1_by_type \<and> do_all_nodes S1_by_type [3, 1, 0, 2]
   \<and> sorted_by_type_then_dest S1_graph S1_by_type
   \<and> distinct_keys (type_dest_key S1_graph) S1_by_type
   \<and> (\<exists>v'. SortEdgesByTypeThenDest stable_insertion_sort S1_graph [3, 1, 0, 2] S1_by_type = Inr v'
          \<and> adj_indices v' = adj_indices S1_by_type \<and> dests v' = dests S1_by_type
          \<and> edge_prop_indices v' = edge_prop_indices S1_by_type)"
proof -
  have c: "std_sort_contract (stable_insertion_sort :: (PropertyIndex \<times> Node) sort_fn)"
    by (rule stable_insertion_sort_contract)
  have a1: "edge_shuffle_ok S1_sorted"
    by code_simp
  have a2: "do_all_nodes S1_sorted [3, 1, 0, 2]"
    by code_simp
  have a3: "sorted_by_dest S1_sorted"
    by code_simp
  have a4: "distinct_keys snd S1_sorted"
    by code_simp
  have b1: "edge_shuffle_ok S1_by_type"
    by code_simp
  have b2: "do_all_nodes S1_by_type [3, 1, 0, 2]"
    by code_simp
  have b3: "sorted_by_type_then_dest S1_graph S1_by_type"
    by code_simp
  have b4: "distinct_keys (type_dest_key S1_graph) S1_by_type"
    by code_simp
  show ?thesis
    using c a1 a2 a3 a4 b1 b2 b3 b4
      resort_sorted_view [OF c a1 a2, of S1_graph]
      resort_sorted_view [OF c b1 b2, of S1_graph]
    by blast
qed

text \<open>
  C5 (as stated) fails.  In \<open>parallel17\<close> node 0 has 17 parallel edges to node 1 with the
  property indices 0 to 16; the view is sorted by destination and, in
  \<open>parallel17_graph\<close>, by type then destination.  The insertion sort that places an
  element after its equivalents meets the contract of \<open>std::sort\<close>, and with it both
  sort operations return the property indices in the order 16 down to 0.
\<close>

theorem resort_parallel17_changes_edge_prop_indices:
  "std_sort_contract (reversing_insertion_sort :: (PropertyIndex \<times> Node) sort_fn)
   \<and> edge_shuffle_ok parallel17 \<and> do_all_nodes parallel17 [0, 1]
   \<and> sorted_by_dest parallel17 \<and> sorted_by_type_then_dest parallel17_graph parallel17
   \<and> SortEdgesByDestID reversing_insertion_sort [0, 1] parallel17
       = Inr (parallel17\<lparr>edge_prop_indices := rev [0..<17]\<rparr>)
   \<and> SortEdgesByTypeThenDest reversing_insertion_sort parallel17_graph [0, 1] parallel17
       = Inr (parallel17\<lparr>edge_prop_indices := rev [0..<17], edge_sort_state := kSortedByEdgeType\<rparr>)
   \<and> edge_prop_indices parallel17 \<noteq> rev [0..<17]"
proof -
  have c: "std_sort_contract (reversing_insertion_sort :: (PropertyIndex \<times> Node) sort_fn)"
    by (rule reversing_insertion_sort_contract)
  have "edge_shuffle_ok parallel17"
    by code_simp
  moreover have "do_all_nodes parallel17 [0, 1]"
    by code_simp
  moreover have "sorted_by_dest parallel17"
    by code_simp
  moreover have "sorted_by_type_then_dest parallel17_graph parallel17"
    by code_simp
  moreover have "SortEdgesByDestID reversing_insertion_sort [0, 1] parallel17
       = Inr (parallel17\<lparr>edge_prop_indices := rev [0..<17]\<rparr>)"
    by code_simp
  moreover have "SortEdgesByTypeThenDest reversing_insertion_sort parallel17_graph [0, 1] parallel17
       = Inr (parallel17\<lparr>edge_prop_indices := rev [0..<17], edge_sort_state := kSortedByEdgeType\<rparr>)"
    by code_simp
  moreover have "edge_prop_indices parallel17 \<noteq> rev [0..<17]"
    by code_simp
  ultimately show ?thesis using c by blast
qed


section \<open>Transposing twice\<close>

lemma count_in_edges_ok:
  assumes "\<forall>e \<in> set es. e < length (dests t)" "\<forall>d \<in> set (dests t). d < length c"
  shows "\<exists>c'. do_all (count_in_edge t) es c = Inr c' \<and> length c' = length c
           \<and> (\<forall>d<length c. c' ! d = c ! d + count_list (map (nth (dests t)) es) d)"
  using assms
proof (induction es arbitrary: c)
  case Nil
  then show ?case by simp
next
  case (Cons e es)
  define dest where "dest = dests t ! e"
  from Cons.prems have e: "e < length (dests t)" and dl: "dest < length c"
    by (simp_all add: dest_def)
  define c1 where "c1 = c[dest := c ! dest + 1]"
  have step: "count_in_edge t e c = Inr c1"
    using e dl by (simp add: count_in_edge_def OutEdgeDst_def rd_def dest_def c1_def)
  from Cons.IH[of c1] Cons.prems obtain c' where r: "do_all (count_in_edge t) es c1 = Inr c'"
    "length c' = length c1"
    "\<forall>d<length c1. c' ! d = c1 ! d + count_list (map (nth (dests t)) es) d"
    by (auto simp: c1_def)
  have "c' ! d = c ! d + count_list (map (nth (dests t)) (e # es)) d" if "d < length c" for d
    using r(3) that dl by (auto simp: c1_def dest_def nth_list_update)
  then show ?case using step r(1,2) by (simp add: c1_def)
qed

lemma count_list_perm: "mset xs = mset ys \<Longrightarrow> count_list xs x = count_list ys x"
  by (metis count_mset)

lemma counted_in_degrees:
  assumes "valid_csr t" "sort eo = [0..<NumEdges t]"
  shows "do_all (count_in_edge t) eo (replicate (NumNodes t) 0) = Inr (in_degrees t)"
proof -
  have ms: "mset eo = mset [0..<NumEdges t]" using assms(2) by (metis mset_sort)
  then have "set eo = {0..<NumEdges t}" by (metis set_mset_mset set_upt)
  then have e: "\<forall>e \<in> set eo. e < length (dests t)" by (simp add: NumEdges_def)
  from assms(1) have d: "\<forall>d \<in> set (dests t). d < length (replicate (NumNodes t) (0::nat))"
    by (simp add: valid_csr_def list_all_iff NumNodes_def)
  from count_in_edges_ok[OF e d] obtain c' where
    r: "do_all (count_in_edge t) eo (replicate (NumNodes t) 0) = Inr c'"
    "length c' = NumNodes t"
    "\<forall>d<NumNodes t. c' ! d = count_list (map (nth (dests t)) eo) d" by auto
  have "mset (map (nth (dests t)) eo) = mset (map (nth (dests t)) [0..<length (dests t)])"
    using ms by (metis mset_map NumEdges_def)
  then have "mset (map (nth (dests t)) eo) = mset (dests t)" by (simp add: map_nth)
  then have "count_list (map (nth (dests t)) eo) d = count_list (dests t) d" for d
    by (rule count_list_perm)
  with r(3) have "c' = in_degrees t"
    using r(2) by (intro nth_equalityI) (simp_all add: in_degrees_def Nodes_def)
  with r(1) show ?thesis by simp
qed

lemma length_partial_sum_from [simp]: "length (partial_sum_from acc xs) = length xs"
  by (induction xs arbitrary: acc) auto

lemma partial_sum_from_nth:
  "i < length xs \<Longrightarrow> partial_sum_from acc xs ! i = acc + sum_list (take (Suc i) xs)"
proof (induction xs arbitrary: acc i)
  case Nil
  then show ?case by simp
next
  case (Cons x xs)
  then show ?case by (cases i) (simp_all add: add.assoc)
qed

lemma partial_sum_nth: "i < length c \<Longrightarrow> partial_sum c ! i = starts c (Suc i)"
  by (simp add: partial_sum_def partial_sum_from_nth starts_def)

lemma length_partial_sum [simp]: "length (partial_sum c) = length c"
  by (simp add: partial_sum_def)

lemma starts_Suc: "d < length c \<Longrightarrow> starts c (Suc d) = starts c d + c ! d"
  by (simp add: starts_def take_Suc_conv_app_nth)

lemma starts_mono: "d \<le> d' \<Longrightarrow> starts c d \<le> starts c d'"
proof -
  assume "d \<le> d'"
  then have "take d' c = take d c @ take (d' - d) (drop d c)"
    by (metis le_add_diff_inverse take_add)
  then show ?thesis by (simp add: starts_def)
qed

lemma starts_le_total: "starts c d \<le> sum_list c"
proof -
  have "sum_list c = sum_list (take d c) + sum_list (drop d c)"
    by (metis append_take_drop_id sum_list.append)
  then show ?thesis by (simp add: starts_def)
qed

lemma starts_0 [simp]: "starts c 0 = 0"
  by (simp add: starts_def)

lemma sorted_partial_sum: "sorted (partial_sum c)"
  unfolding sorted_iff_nth_mono
  by (auto simp: partial_sum_nth intro: starts_mono)

lemma last_partial_sum: "c \<noteq> [] \<Longrightarrow> last (partial_sum c) = sum_list c"
proof -
  assume ne: "c \<noteq> []"
  then have "partial_sum c \<noteq> []" by (metis length_0_conv length_partial_sum)
  then have "last (partial_sum c) = partial_sum c ! (length c - 1)"
    by (simp add: last_conv_nth)
  also have "\<dots> = starts c (Suc (length c - 1))" using ne by (intro partial_sum_nth) simp
  also have "\<dots> = sum_list c" using ne by (simp add: starts_def)
  finally show ?thesis .
qed

lemma make_out_dests_offset_nth:
  "d < length c \<Longrightarrow> make_out_dests_offset (partial_sum c) ! d = starts c d"
  by (cases d) (simp_all add: make_out_dests_offset_def partial_sum_nth)

lemma indicator_sum: "sum_list (map (\<lambda>d. if x = d then 1 else 0) [0..<N]) = (if x < N then 1 else (0::nat))"
  by (induction N) auto

lemma sum_count_list:
  "\<forall>x \<in> set xs. x < N \<Longrightarrow> sum_list (map (count_list xs) [0..<N]) = length xs"
proof (induction xs)
  case Nil
  then show ?case by (induction N) auto
next
  case (Cons x xs)
  have "count_list (x # xs) = (\<lambda>d. count_list xs d + (if x = d then 1 else 0))"
    by (auto simp: fun_eq_iff)
  then have "sum_list (map (count_list (x # xs)) [0..<N])
          = sum_list (map (\<lambda>d. count_list xs d + (if x = d then 1 else 0)) [0..<N])"
    by (simp only:)
  also have "\<dots> = sum_list (map (count_list xs) [0..<N])
                  + sum_list (map (\<lambda>d. if x = d then 1 else 0) [0..<N])"
    by (rule sum_list_addf)
  finally have st: "sum_list (map (count_list (x # xs)) [0..<N])
          = sum_list (map (count_list xs) [0..<N]) + sum_list (map (\<lambda>d. if x = d then 1 else 0) [0..<N])" .
  have A: "sum_list (map (count_list xs) [0..<N]) = length xs" using Cons by simp
  have B: "sum_list (map (\<lambda>d. if x = d then 1 else 0) [0..<N]) = (1::nat)"
    using Cons.prems by (simp add: indicator_sum)
  show ?case unfolding st A B by simp
qed

lemma sum_in_degrees: "valid_csr t \<Longrightarrow> sum_list (in_degrees t) = NumEdges t"
  by (simp add: in_degrees_def Nodes_def NumNodes_def NumEdges_def valid_csr_def list_all_iff
      sum_count_list)

lemma block_of:
  "w < sum_list c \<Longrightarrow> \<exists>d<length c. starts c d \<le> w \<and> w < starts c (Suc d)"
proof (induction c rule: rev_induct)
  case Nil
  then show ?case by simp
next
  case (snoc x c)
  show ?case
  proof (cases "w < sum_list c")
    case True
    from snoc.IH[OF True] obtain d where "d < length c" "starts c d \<le> w" "w < starts c (Suc d)"
      by blast
    then show ?thesis by (auto simp: starts_def intro!: exI[of _ d])
  next
    case False
    then show ?thesis using snoc.prems by (auto simp: starts_def intro!: exI[of _ "length c"])
  qed
qed


lemma upt_join: "i \<le> j \<Longrightarrow> j \<le> k \<Longrightarrow> [i..<j] @ [j..<k] = [i..<k]"
  by (metis le_Suc_ex upt_add_eq_append)

lemma edges_in_order:
  assumes "valid_csr t" "k \<le> NumNodes t"
  shows "concat (map (\<lambda>n. [range_beg t n..<range_end t n]) [0..<k]) = [0..<range_beg t k]"
  using assms(2)
proof (induction k)
  case 0
  then show ?case by (simp add: range_beg_def)
next
  case (Suc k)
  then have k: "k < NumNodes t" by simp
  have "range_beg t (Suc k) = range_end t k" by (simp add: range_beg_def range_end_def)
  moreover have "range_beg t k \<le> range_end t k" by (rule csr_ranges(2)[OF assms(1) k])
  ultimately show ?case using Suc by (simp add: upt_join)
qed

lemma snd_out_edge_list:
  assumes "valid_csr t"
  shows "map snd (out_edge_list t) = [0..<NumEdges t]"
proof -
  have "map snd (out_edge_list t)
          = concat (map (\<lambda>n. [range_beg t n..<range_end t n]) [0..<NumNodes t])"
    by (simp add: out_edge_list_def map_concat o_def Nodes_def)
  also have "\<dots> = [0..<range_beg t (NumNodes t)]"
    by (rule edges_in_order[OF assms order_refl])
  also have "range_beg t (NumNodes t) = NumEdges t"
    using assms
    by (auto simp: range_beg_def valid_csr_def NumNodes_def NumEdges_def last_conv_nth
        split: if_splits)
  finally show ?thesis .
qed

lemma fst_out_edge_list: "item \<in> set (out_edge_list t) \<Longrightarrow> fst item < NumNodes t"
  by (auto simp: out_edge_list_def Nodes_def)

lemma dest_items_append:
  "dest_items t d (ps @ qs) = dest_items t d ps @ dest_items t d qs"
  by (simp add: dest_items_def)

lemma dest_items_count:
  assumes "valid_csr t" "mset sched = mset (out_edge_list t)"
  shows "length (dest_items t d sched) = count_list (dests t) d"
proof -
  have "length (dest_items t d sched) = size (filter_mset (\<lambda>item. dests t ! snd item = d) (mset sched))"
    by (metis dest_items_def mset_filter size_mset)
  also have "\<dots> = length (filter (\<lambda>item. dests t ! snd item = d) (out_edge_list t))"
    unfolding assms(2) by (metis mset_filter size_mset)
  also have "\<dots> = length (filter (\<lambda>e. dests t ! e = d) (map snd (out_edge_list t)))"
    by (simp only: filter_map length_map o_def)
  also have "map snd (out_edge_list t) = [0..<length (dests t)]"
    using snd_out_edge_list[OF assms(1)] by (simp only: NumEdges_def)
  also have "length (filter (\<lambda>e. dests t ! e = d) [0..<length (dests t)])
               = length (filter (\<lambda>x. x = d) (map (nth (dests t)) [0..<length (dests t)]))"
    by (simp only: filter_map length_map o_def)
  also have "map (nth (dests t)) [0..<length (dests t)] = dests t"
    by (rule map_nth)
  also have "length (filter (\<lambda>x. x = d) (dests t)) = count_list (dests t) d"
  proof -
    have "(\<lambda>x. x = d) = (=) d" by (auto simp: fun_eq_iff)
    then show ?thesis by (simp only: count_list_eq_length_filter)
  qed
  finally show ?thesis .
qed

lemma sched_items:
  assumes "valid_csr t" "mset sched = mset (out_edge_list t)" "item \<in> set sched"
  shows "fst item < NumNodes t" and "snd item < NumEdges t"
proof -
  from assms(2,3) have i: "item \<in> set (out_edge_list t)" by (metis set_mset_mset)
  then show "fst item < NumNodes t" by (rule fst_out_edge_list)
  from i have "snd item \<in> set (map snd (out_edge_list t))" by simp
  then show "snd item < NumEdges t" by (simp add: snd_out_edge_list[OF assms(1)])
qed

lemma scatter_step:
  assumes csr: "valid_csr t" and c: "c = in_degrees t"
    and inv: "scatter_inv t c ps st"
    and e: "e < NumEdges t"
    and bound: "\<forall>d<NumNodes t. length (dest_items t d (ps @ [(src, e)])) \<le> c ! d"
  shows "\<exists>st'. scatter_edge t (src, e) st = Inr st' \<and> scatter_inv t c (ps @ [(src, e)]) st'"
proof -
  obtain offs od epi where st: "st = (offs, od, epi)" by (cases st)
  define N where "N = NumNodes t"
  define E where "E = NumEdges t"
  define dest where "dest = dests t ! e"
  define k where "k = length (dest_items t dest ps)"
  from inv have l: "length offs = N" "length od = E" "length epi = E"
    and io: "\<forall>d<N. offs ! d = starts c d + length (dest_items t d ps)"
    and ic: "\<forall>d<N. \<forall>j<length (dest_items t d ps).
            od ! (starts c d + j) = fst (dest_items t d ps ! j) \<and>
            epi ! (starts c d + j) = edge_prop t (snd (dest_items t d ps ! j))"
    by (simp_all add: scatter_inv_def st N_def E_def)
  have lc: "length c = N" by (simp add: c in_degrees_def Nodes_def N_def)
  from csr e have dN: "dest < N"
    by (simp add: valid_csr_def list_all_iff dest_def N_def NumNodes_def NumEdges_def)
  have di: "dest_items t d (ps @ [(src, e)])
              = dest_items t d ps @ (if d = dest then [(src, e)] else [])" for d
    by (auto simp: dest_items_def dest_def)
  from bound dN have "length (dest_items t dest (ps @ [(src, e)])) \<le> c ! dest"
    by (simp add: N_def)
  then have kb: "k < c ! dest" unfolding di k_def by simp
  define w where "w = starts c dest + k"
  have ow: "offs ! dest = w" using io dN by (simp add: w_def k_def)
  have "w < starts c (Suc dest)" using kb dN lc by (simp add: w_def starts_Suc)
  also have "\<dots> \<le> sum_list c" by (rule starts_le_total)
  also have "\<dots> = E" by (simp add: c sum_in_degrees[OF csr] E_def)
  finally have wE: "w < E" .
  have gp: "GetEdgePropertyIndexFromOutEdge t e = Inr (edge_prop t e)"
    using csr e
    by (auto simp: GetEdgePropertyIndexFromOutEdge_def edge_prop_def rd_def valid_csr_def
        NumEdges_def)
  define st' where "st' = (offs[dest := w + 1], od[w := src], epi[w := edge_prop t e])"
  have eL: "e < length (dests t)" using e by (simp add: NumEdges_def)
  have step: "scatter_edge t (src, e) st = Inr st'"
    using eL dN wE l ow gp
    by (simp add: scatter_edge_def st OutEdgeDst_def rd_def wr_def dest_def[symmetric] st'_def)
  have apart: "starts c d + j \<noteq> w" if d: "d < N" "d \<noteq> dest" and j: "j < length (dest_items t d ps)" for d j
  proof -
    from bound d(1) have "length (dest_items t d (ps @ [(src, e)])) \<le> c ! d"
      by (simp add: N_def)
    then have "length (dest_items t d ps) \<le> c ! d" unfolding di using d(2) by simp
    with j have jb: "starts c d + j < starts c (Suc d)" using d(1) lc by (simp add: starts_Suc)
    have wb: "starts c dest \<le> w" "w < starts c (Suc dest)"
      using kb dN lc by (simp_all add: w_def starts_Suc)
    consider "d < dest" | "dest < d" using d(2) by linarith
    then show ?thesis
    proof cases
      case 1
      then have "starts c (Suc d) \<le> starts c dest" by (intro starts_mono) simp
      with jb wb show ?thesis by simp
    next
      case 2
      then have "starts c (Suc dest) \<le> starts c d" by (intro starts_mono) simp
      with wb show ?thesis by simp
    qed
  qed
  have "scatter_inv t c (ps @ [(src, e)]) st'"
    unfolding scatter_inv_def st'_def prod.case
  proof (intro conjI allI impI)
    show "length (offs[dest := w + 1]) = NumNodes t" using l by (simp add: N_def)
    show "length (od[w := src]) = NumEdges t" using l by (simp add: E_def)
    show "length (epi[w := edge_prop t e]) = NumEdges t" using l by (simp add: E_def)
  next
    fix d assume d: "d < NumNodes t"
    show "offs[dest := w + 1] ! d = starts c d + length (dest_items t d (ps @ [(src, e)]))"
      using io d dN l by (auto simp: di N_def nth_list_update w_def k_def)
  next
    fix d j assume d: "d < NumNodes t" and j: "j < length (dest_items t d (ps @ [(src, e)]))"
    show "od[w := src] ! (starts c d + j) = fst (dest_items t d (ps @ [(src, e)]) ! j)"
    proof (cases "d = dest")
      case True
      show ?thesis
      proof (cases "j < k")
        case jk: True
        then have "starts c d + j \<noteq> w" using True by (simp add: w_def)
        then show ?thesis using ic d jk True by (simp add: di nth_append k_def N_def)
      next
        case False
        with j True have "j = k" by (simp add: di k_def)
        then show ?thesis using True wE l by (simp add: di nth_append k_def w_def)
      qed
    next
      case False
      with j have jj: "j < length (dest_items t d ps)" by (simp add: di)
      from apart[OF _ False jj] d have "starts c d + j \<noteq> w" by (simp add: N_def)
      then show ?thesis using ic d jj False by (simp add: di N_def)
    qed
    show "epi[w := edge_prop t e] ! (starts c d + j)
            = edge_prop t (snd (dest_items t d (ps @ [(src, e)]) ! j))"
    proof (cases "d = dest")
      case True
      show ?thesis
      proof (cases "j < k")
        case jk: True
        then have "starts c d + j \<noteq> w" using True by (simp add: w_def)
        then show ?thesis using ic d jk True by (simp add: di nth_append k_def N_def)
      next
        case False
        with j True have "j = k" by (simp add: di k_def)
        then show ?thesis using True wE l by (simp add: di nth_append k_def w_def)
      qed
    next
      case False
      with j have jj: "j < length (dest_items t d ps)" by (simp add: di)
      from apart[OF _ False jj] d have "starts c d + j \<noteq> w" by (simp add: N_def)
      then show ?thesis using ic d jj False by (simp add: di N_def)
    qed
  qed
  with step show ?thesis by blast
qed

lemma scatter_all:
  assumes csr: "valid_csr t" and c: "c = in_degrees t"
    and inv: "scatter_inv t c ps st"
    and es: "\<forall>item \<in> set xs. snd item < NumEdges t"
    and bound: "\<forall>d<NumNodes t. length (dest_items t d (ps @ xs)) \<le> c ! d"
  shows "\<exists>st'. do_all (scatter_edge t) xs st = Inr st' \<and> scatter_inv t c (ps @ xs) st'"
  using inv es bound
proof (induction xs arbitrary: ps st)
  case Nil
  then show ?case by simp
next
  case (Cons x xs)
  obtain src e where x: "x = (src, e)" by (cases x)
  have b1: "\<forall>d<NumNodes t. length (dest_items t d (ps @ [(src, e)])) \<le> c ! d"
  proof (intro allI impI)
    fix d assume "d < NumNodes t"
    with Cons.prems(3) have "length (dest_items t d (ps @ x # xs)) \<le> c ! d" by simp
    moreover have "length (dest_items t d (ps @ [x])) \<le> length (dest_items t d (ps @ x # xs))"
      by (simp add: dest_items_def)
    ultimately show "length (dest_items t d (ps @ [(src, e)])) \<le> c ! d"
      unfolding x by (rule order_trans[rotated])
  qed
  from Cons.prems(2) have e: "e < NumEdges t" by (simp add: x)
  from scatter_step[OF csr c Cons.prems(1) e b1]
  obtain st1 where s1: "scatter_edge t (src, e) st = Inr st1"
    "scatter_inv t c (ps @ [(src, e)]) st1" by blast
  have b2: "\<forall>d<NumNodes t. length (dest_items t d ((ps @ [(src, e)]) @ xs)) \<le> c ! d"
    using Cons.prems(3) by (simp add: x)
  have es': "\<forall>item \<in> set xs. snd item < NumEdges t" using Cons.prems(2) by simp
  from Cons.IH[OF s1(2) es' b2]
  obtain st' where r: "do_all (scatter_edge t) xs st1 = Inr st'"
    "scatter_inv t c ((ps @ [(src, e)]) @ xs) st'" by blast
  have run: "do_all (scatter_edge t) (x # xs) st = Inr st'" by (simp add: x s1(1) r(1))
  have inv': "scatter_inv t c (ps @ x # xs) st'" using r(2) by (simp add: x)
  from run inv' show ?case by blast
qed


lemma partition_by_key:
  "mset (concat (map (\<lambda>d. filter (\<lambda>x. f x = d) xs) [0..<n])) = mset (filter (\<lambda>x. f x < n) xs)"
proof (induction n)
  case 0
  then show ?case by simp
next
  case (Suc n)
  have "mset (filter (\<lambda>x. f x < n) xs) + mset (filter (\<lambda>x. f x = n) xs)
          = mset (filter (\<lambda>x. f x < Suc n) xs)"
    by (induction xs) (auto simp: less_Suc_eq)
  with Suc show ?case by simp
qed

lemma partition_by_dest:
  assumes "\<forall>x \<in> set xs. f x < N"
  shows "mset (concat (map (\<lambda>d. filter (\<lambda>x. f x = d) xs) [0..<N])) = mset xs"
proof -
  have "filter (\<lambda>x. f x < N) xs = xs" using assms by (simp add: filter_id_conv)
  then show ?thesis using partition_by_key[of f xs N] by simp
qed

lemma MakeTransposeCopy_ok:
  assumes csr: "valid_csr t" and sch: "transpose_schedules t eo so"
  shows "\<exists>t1. MakeTransposeCopy t eo so = Inr t1 \<and> valid_csr t1
           \<and> adj_indices t1 = partial_sum (in_degrees t)
           \<and> edge_triples t1 = image_mset swap_ends (edge_triples t)"
proof (cases "NumNodes t = 0")
  case True
  let ?t1 = "\<lparr>adj_indices = [], dests = [], edge_prop_indices = [], node_prop_indices = [],
             tpose_state = kYes, edge_sort_state = kAny\<rparr>"
  have "MakeTransposeCopy t eo so = Inr ?t1"
    using True by (simp add: MakeTransposeCopy_def empty_topo_def)
  moreover have "valid_csr ?t1" by (simp add: valid_csr_def)
  moreover have "in_degrees t = []" using True by (simp add: in_degrees_def Nodes_def)
  moreover have "edge_triples ?t1 = {#}"
    by (simp add: edge_triples_def out_edge_list_def Nodes_def NumNodes_def)
  moreover have "edge_triples t = {#}"
    using True by (simp add: edge_triples_def out_edge_list_def Nodes_def)
  ultimately show ?thesis by (simp add: partial_sum_def)
next
  case False
  define N where "N = NumNodes t"
  define E where "E = NumEdges t"
  define c where "c = in_degrees t"
  have lc: "length c = N" by (simp add: c_def in_degrees_def Nodes_def N_def)
  have cd: "c ! d = count_list (dests t) d" if "d < N" for d
    using that by (simp add: c_def in_degrees_def Nodes_def N_def)
  from sch have eo: "sort eo = [0..<NumEdges t]" and so': "sort so = sort (out_edge_list t)"
    by (simp_all add: transpose_schedules_def)
  from so' have ms: "mset so = mset (out_edge_list t)" by (metis mset_sort)
  have cnt: "do_all (count_in_edge t) eo (replicate (NumNodes t) 0) = Inr c"
    unfolding c_def by (rule counted_in_degrees[OF csr eo])
  have total: "sum_list c = E" by (simp add: c_def E_def sum_in_degrees[OF csr])
  define offs0 where "offs0 = make_out_dests_offset (partial_sum c)"
  have o0: "length offs0 = N" by (simp add: offs0_def make_out_dests_offset_def lc)
  have o1: "offs0 ! d = starts c d" if "d < N" for d
    using that lc by (simp add: offs0_def make_out_dests_offset_nth)
  have inv0: "scatter_inv t c [] (offs0, replicate (NumEdges t) 0, replicate (NumEdges t) 0)"
    using o0 o1 by (simp add: scatter_inv_def N_def dest_items_def)
  have es: "\<forall>item \<in> set so. snd item < NumEdges t"
    using sched_items(2)[OF csr ms] by blast
  have di: "length (dest_items t d so) = c ! d" if "d < N" for d
    using dest_items_count[OF csr ms] cd[OF that] by simp
  have bound: "\<forall>d<NumNodes t. length (dest_items t d ([] @ so)) \<le> c ! d"
    using di by (simp add: N_def)
  from scatter_all[OF csr c_def inv0 es bound]
  obtain offs od epi where run: "do_all (scatter_edge t) so
      (offs0, replicate (NumEdges t) 0, replicate (NumEdges t) 0) = Inr (offs, od, epi)"
    and inv: "scatter_inv t c so (offs, od, epi)"
    by (metis append_Nil prod_cases3)
  from inv have l: "length od = E" "length epi = E"
    and ic: "\<forall>d<N. \<forall>j<c ! d.
            od ! (starts c d + j) = fst (dest_items t d so ! j) \<and>
            epi ! (starts c d + j) = edge_prop t (snd (dest_items t d so ! j))"
    using di by (simp_all add: scatter_inv_def N_def E_def)
  define t1 where "t1 = \<lparr>adj_indices = partial_sum c, dests = od,
                          edge_prop_indices = epi, node_prop_indices = [],
                          tpose_state = kYes, edge_sort_state = kAny\<rparr>"
  have res: "MakeTransposeCopy t eo so = Inr t1"
    using False cnt run
    by (simp add: MakeTransposeCopy_def empty_topo_def Let_def offs0_def t1_def)
  have srcN: "fst item < N" if "item \<in> set so" for item
    using sched_items(1)[OF csr ms that] by (simp add: N_def)
  have cell: "\<exists>d j. d < N \<and> j < c ! d \<and> w = starts c d + j" if "w < E" for w
  proof -
    from that total have "w < sum_list c" by simp
    from block_of[OF this] obtain d where d: "d < length c" "starts c d \<le> w" "w < starts c (Suc d)"
      by blast
    then have "w - starts c d < c ! d" "w = starts c d + (w - starts c d)"
      by (simp_all add: starts_Suc)
    with d(1) lc show ?thesis by blast
  qed
  have odN: "od ! w < N" if "w < E" for w
  proof -
    from cell[OF that] obtain d j where dj: "d < N" "j < c ! d" "w = starts c d + j" by blast
    with ic have "od ! w = fst (dest_items t d so ! j)" by simp
    moreover have "dest_items t d so ! j \<in> set so"
      using dj di[OF dj(1)] by (metis dest_items_def filter_is_subset nth_mem subsetD)
    ultimately show ?thesis using srcN by simp
  qed
  have N0: "c \<noteq> []" using False lc by (auto simp: N_def)
  have v1: "valid_csr t1"
    unfolding valid_csr_def
  proof (intro conjI)
    show "sorted (adj_indices t1)" by (simp add: t1_def sorted_partial_sum)
    show "if adj_indices t1 = [] then dests t1 = []
          else last (adj_indices t1) = length (dests t1)"
      using N0 l total by (simp add: t1_def last_partial_sum) (metis length_0_conv length_partial_sum)
    show "list_all (\<lambda>d. d < length (adj_indices t1)) (dests t1)"
      using odN l lc by (simp add: t1_def list_all_length)
    show "edge_prop_indices t1 = [] \<or> length (edge_prop_indices t1) = length (dests t1)"
      using l by (simp add: t1_def)
    show "node_prop_indices t1 = [] \<or> length (node_prop_indices t1) = length (adj_indices t1)"
      by (simp add: t1_def)
  qed
  have rb: "range_beg t1 d = starts c d" if "d < N" for d
    using that lc by (cases d) (simp_all add: range_beg_def t1_def partial_sum_nth)
  have re: "range_end t1 d = starts c (Suc d)" if "d < N" for d
    using that lc by (simp add: range_end_def t1_def partial_sum_nth)
  define g :: "Node \<times> Edge \<Rightarrow> Node \<times> Node \<times> PropertyIndex"
    where "g = (\<lambda>item. (dests t ! snd item, fst item, edge_prop t (snd item)))"
  have blk: "map (\<lambda>w. (d, od ! w, edge_prop t1 w)) [range_beg t1 d..<range_end t1 d]
               = map g (filter (\<lambda>item. dests t ! snd item = d) so)" if d: "d < N" for d
  proof (intro nth_equalityI)
    show "length (map (\<lambda>w. (d, od ! w, edge_prop t1 w)) [range_beg t1 d..<range_end t1 d])
            = length (map g (filter (\<lambda>item. dests t ! snd item = d) so))"
      using di[OF d] d lc by (simp add: rb[OF d] re[OF d] starts_Suc dest_items_def)
  next
    fix j assume "j < length (map (\<lambda>w. (d, od ! w, edge_prop t1 w)) [range_beg t1 d..<range_end t1 d])"
    then have j: "j < c ! d" using d lc by (simp add: rb[OF d] re[OF d] starts_Suc)
    then have "starts c d + j < starts c (Suc d)" using d lc by (simp add: starts_Suc)
    also have "\<dots> \<le> E" using starts_le_total[of c "Suc d"] total by simp
    finally have wE: "starts c d + j < E" .
    then have "epi \<noteq> []" using l by auto
    then have ep: "edge_prop t1 (starts c d + j) = epi ! (starts c d + j)"
      by (simp add: edge_prop_def t1_def)
    have jl: "j < length (filter (\<lambda>item. dests t ! snd item = d) so)"
      using j di[OF d] by (simp add: dest_items_def)
    then have "filter (\<lambda>item. dests t ! snd item = d) so ! j
                 \<in> set (filter (\<lambda>item. dests t ! snd item = d) so)" by (rule nth_mem)
    then have dd: "dests t ! snd (filter (\<lambda>item. dests t ! snd item = d) so ! j) = d" by simp
    from ic d j have "od ! (starts c d + j) = fst (filter (\<lambda>item. dests t ! snd item = d) so ! j)"
      "epi ! (starts c d + j) = edge_prop t (snd (filter (\<lambda>item. dests t ! snd item = d) so ! j))"
      by (simp_all add: dest_items_def)
    then show "map (\<lambda>w. (d, od ! w, edge_prop t1 w)) [range_beg t1 d..<range_end t1 d] ! j
                 = map g (filter (\<lambda>item. dests t ! snd item = d) so) ! j"
      using j jl d lc ep dd by (simp add: rb[OF d] re[OF d] starts_Suc g_def)
  qed
  have fN: "\<forall>item \<in> set so. dests t ! snd item < N"
  proof
    fix item assume "item \<in> set so"
    with es have "snd item < length (dests t)" by (simp add: NumEdges_def)
    then show "dests t ! snd item < N"
      using csr by (simp add: valid_csr_def list_all_length N_def NumNodes_def)
  qed
  have n1: "Nodes t1 = [0..<N]" using lc by (simp add: Nodes_def NumNodes_def t1_def)
  have "map (\<lambda>(src, e). (src, dests t1 ! e, edge_prop t1 e)) (out_edge_list t1)
          = concat (map (\<lambda>d. map (\<lambda>w. (d, od ! w, edge_prop t1 w)) [range_beg t1 d..<range_end t1 d])
                      [0..<N])"
    by (simp add: out_edge_list_def n1 map_concat o_def) (simp add: t1_def)
  also have "\<dots> = concat (map (\<lambda>d. map g (filter (\<lambda>item. dests t ! snd item = d) so)) [0..<N])"
    using blk by (intro arg_cong[of _ _ concat] map_cong) simp_all
  also have "\<dots> = map g (concat (map (\<lambda>d. filter (\<lambda>item. dests t ! snd item = d) so) [0..<N]))"
    by (simp add: map_concat o_def)
  finally have "edge_triples t1
        = image_mset g (mset (concat (map (\<lambda>d. filter (\<lambda>item. dests t ! snd item = d) so) [0..<N])))"
    by (simp add: edge_triples_def)
  also have "\<dots> = image_mset g (mset so)"
    by (simp only: partition_by_dest[OF fN])
  also have "\<dots> = image_mset g (mset (out_edge_list t))" by (simp only: ms)
  also have "\<dots> = image_mset swap_ends (edge_triples t)"
    by (simp add: edge_triples_def multiset.map_comp o_def g_def swap_ends_def case_prod_beta)
  finally have tr: "edge_triples t1 = image_mset swap_ends (edge_triples t)" .
  have "adj_indices t1 = partial_sum (in_degrees t)" by (simp add: t1_def c_def)
  with res v1 tr show ?thesis by blast
qed

text \<open>
  C4.  Transposition involution.  For every valid base topology and every schedule of
  the parallel loops, \<open>MakeTransposeCopy\<close> returns a view whose \<open>adj_indices\<close> are the
  prefix sums of the in-degrees of the base, and \<open>MakeTransposeCopy\<close> of that view, again
  under every schedule, returns a topology with the same multiset of (source,
  destination, edge property index) triples as the base.
\<close>

theorem transpose_twice_same_triples:
  assumes "valid_csr base" and "transpose_schedules base edge_order scatter_order"
  shows "\<exists>t1. MakeTransposeCopy base edge_order scatter_order = Inr t1
           \<and> adj_indices t1 = partial_sum (in_degrees base)
           \<and> (\<forall>edge_order' scatter_order'.
                 transpose_schedules t1 edge_order' scatter_order' \<longrightarrow>
                 (\<exists>t2. MakeTransposeCopy t1 edge_order' scatter_order' = Inr t2
                       \<and> edge_triples t2 = edge_triples base))"
proof -
  from MakeTransposeCopy_ok[OF assms] obtain t1 where
    t1: "MakeTransposeCopy base edge_order scatter_order = Inr t1" "valid_csr t1"
      "adj_indices t1 = partial_sum (in_degrees base)"
      "edge_triples t1 = image_mset swap_ends (edge_triples base)" by blast
  have inv: "swap_ends \<circ> swap_ends = id"
    by (auto simp: swap_ends_def fun_eq_iff)
  have "\<exists>t2. MakeTransposeCopy t1 eo' so' = Inr t2 \<and> edge_triples t2 = edge_triples base"
    if "transpose_schedules t1 eo' so'" for eo' so'
  proof -
    from MakeTransposeCopy_ok[OF t1(2) that] obtain t2 where
      t2: "MakeTransposeCopy t1 eo' so' = Inr t2"
        "edge_triples t2 = image_mset swap_ends (edge_triples t1)" by blast
    have "edge_triples t2 = edge_triples base"
      unfolding t2(2) t1(4) by (simp add: multiset.map_comp inv)
    with t2(1) show ?thesis by blast
  qed
  with t1(1,3) show ?thesis by blast
qed

theorem transpose_twice_same_triples_witness:
  "valid_csr S1_base
   \<and> transpose_schedules S1_base [4, 2, 0, 1, 3] [(3, 3), (0, 0), (3, 4), (0, 1), (2, 2)]
   \<and> MakeTransposeCopy S1_base [4, 2, 0, 1, 3] [(3, 3), (0, 0), (3, 4), (0, 1), (2, 2)]
       = Inr S1_transposed
   \<and> adj_indices S1_transposed = partial_sum (in_degrees S1_base)
   \<and> partial_sum (in_degrees S1_base) = [1, 2, 4, 5]
   \<and> transpose_schedules S1_transposed [0, 1, 2, 3, 4] [(3, 4), (2, 3), (2, 2), (1, 1), (0, 0)]
   \<and> (\<exists>t2. MakeTransposeCopy S1_transposed [0, 1, 2, 3, 4]
               [(3, 4), (2, 3), (2, 2), (1, 1), (0, 0)] = Inr t2
          \<and> edge_triples t2 = edge_triples S1_base)"
proof -
  have h1: "valid_csr S1_base"
    by code_simp
  have h2: "transpose_schedules S1_base [4, 2, 0, 1, 3] [(3, 3), (0, 0), (3, 4), (0, 1), (2, 2)]"
    by code_simp
  have h3: "MakeTransposeCopy S1_base [4, 2, 0, 1, 3] [(3, 3), (0, 0), (3, 4), (0, 1), (2, 2)]
              = Inr S1_transposed"
    by code_simp
  have h4: "transpose_schedules S1_transposed [0, 1, 2, 3, 4]
              [(3, 4), (2, 3), (2, 2), (1, 1), (0, 0)]"
    by code_simp
  have h5: "partial_sum (in_degrees S1_base) = [1, 2, 4, 5]"
    by code_simp
  from transpose_twice_same_triples [OF h1 h2] h3
  have "adj_indices S1_transposed = partial_sum (in_degrees S1_base)"
    and "\<forall>edge_order' scatter_order'.
           transpose_schedules S1_transposed edge_order' scatter_order' \<longrightarrow>
           (\<exists>t2. MakeTransposeCopy S1_transposed edge_order' scatter_order' = Inr t2
                 \<and> edge_triples t2 = edge_triples S1_base)"
    by auto
  with h1 h2 h3 h4 h5 show ?thesis by blast
qed


end
